theory Spec2Isabelle
  imports Main "HOL-Library.Word" "HOL-Library.Finite_Map"
begin

unbundle bit_operations_syntax

section \<open>Data model\<close>

text \<open>
  Go's \<open>byte\<close> is an 8-bit word.  A \<open>rune\<close> is an \<open>int32\<close>; no operation of the
  source on a rune leaves the 32-bit range (the decoder builds at most 21 bits, the hex
  scanner at most 16, and every subtraction is guarded by a range test), so a rune is an
  \<open>int\<close>.  Cursor positions are Go \<open>int\<close>s that the source only ever produces
  non-negative, so they are \<open>nat\<close>; an index that would panic in Go is a guarded
  branch of the model.  A Go \<open>string\<close> is its byte sequence.
\<close>

type_synonym byte = "8 word"
type_synonym rune = int
type_synonym gostring = "byte list"

text \<open>
  The messages of the two error structs.  Each constructor stands for one format string
  of the source, with the formatted arguments as fields:
  \<^item> \<open>NoEnoughData\<close>: "no enough data"
  \<^item> \<open>UnexpectedLeadingChar\<close>: "unexpected leading char"
  \<^item> \<open>BadLeadingChar\<close>: "bad leading char"
  \<^item> \<open>BufNotEnough req remain\<close>: "buf not enough. req: %d, remain: %d"
  \<^item> \<open>Expect tok\<close>: "expect %q"
  \<^item> \<open>NotTerminated\<close>: "not terminated"
  \<^item> \<open>ExpectSomethingGotEOS\<close>: "expect something, got EOS"
  \<^item> \<open>BadChar ch\<close>: "bad char: '%c' (%#x)"
  \<^item> \<open>ExpectHex ch\<close>: "expect hex, got '%c' (%#x)"
  \<^item> \<open>Expect4HexDigit\<close>: "expect 4 hex digit"
  \<^item> \<open>StringNotTerminatedExpectEscape\<close>: "string not terminated, expect escape"
  \<^item> \<open>BadEscapeChar ch\<close>: "bad escape char: '%c' (%#x)"
  \<^item> \<open>UnescapedChar ch\<close>: "unescaped char: '%c' (%#x)"
  \<^item> \<open>StringNotTerminated\<close>: "string not terminated"
  \<^item> \<open>ExpectDigits\<close>: "expect digits"
  \<^item> \<open>ExpectsDigitsGotEOS\<close>: "expects digits, got EOS"
  \<^item> \<open>ExpectTrueFalseNull\<close>: "expect true|false|null"
  \<^item> \<open>ExpectCloseOrComma b\<close>: "expect '%s' or ','"
\<close>

datatype msg =
    NoEnoughData
  | UnexpectedLeadingChar
  | BadLeadingChar
  | BufNotEnough nat nat
  | Expect string
  | NotTerminated
  | ExpectSomethingGotEOS
  | BadChar rune
  | ExpectHex rune
  | Expect4HexDigit
  | StringNotTerminatedExpectEscape
  | BadEscapeChar rune
  | UnescapedChar rune
  | StringNotTerminated
  | ExpectDigits
  | ExpectsDigitsGotEOS
  | ExpectTrueFalseNull
  | ExpectCloseOrComma string

text \<open>
  \<open>DecodingError pos char msg\<close> and \<open>ParseError pos msg\<close> are the two error structs.
  \<open>TypeAssertionPanic\<close> is the run-time panic of a failed type assertion
  \<open>x.(T)\<close>, \<open>IndexOutOfRangePanic\<close> that of an index out of range.
\<close>

datatype error =
    DecodingError nat byte msg
  | ParseError nat msg
  | TypeAssertionPanic
  | IndexOutOfRangePanic

section \<open>Go values used by the parser\<close>

subsection \<open>Strings\<close>

text \<open>
  The UTF-8 encoder of Go (\<open>utf8.EncodeRune\<close>), which the conversions
  \<open>string(val)\<close> of \<open>ParseString\<close> and \<open>[]byte(s)\<close> of the tests apply to each rune:
  one byte below \<open>0x80\<close>, two bytes below \<open>0x800\<close>, three below \<open>0x10000\<close>,
  four up to \<open>0x10FFFF\<close>; the leader carries the length prefix and the top payload
  bits, each continuation byte \<open>10xxxxxx\<close> carries six payload bits.  A rune that is no
  Unicode scalar value (negative, above \<open>0x10FFFF\<close>, or a surrogate half
  \<open>0xD800..0xDFFF\<close>) is encoded as \<open>U+FFFD\<close>, the bytes \<open>EF BF BD\<close>.
\<close>

definition utf8_encode :: "rune \<Rightarrow> byte list" where
  "utf8_encode r =
     (if 0 \<le> r \<and> r < 0x80 then [word_of_int r]
      else if 0 \<le> r \<and> r < 0x800 then
        [word_of_int (0xC0 + r div 0x40), word_of_int (0x80 + r mod 0x40)]
      else if r < 0 \<or> 0x10FFFF < r \<or> (0xD800 \<le> r \<and> r \<le> 0xDFFF) then
        [0xEF, 0xBF, 0xBD]
      else if r < 0x10000 then
        [word_of_int (0xE0 + r div 0x1000), word_of_int (0x80 + r div 0x40 mod 0x40),
         word_of_int (0x80 + r mod 0x40)]
      else
        [word_of_int (0xF0 + r div 0x40000), word_of_int (0x80 + r div 0x1000 mod 0x40),
         word_of_int (0x80 + r div 0x40 mod 0x40), word_of_int (0x80 + r mod 0x40)])"

text \<open>
  Go's conversion \<open>string(val)\<close> of a \<open>[]rune\<close>: the concatenation of the UTF-8
  encodings of the runes.
\<close>

definition string_of_runes :: "rune list \<Rightarrow> gostring" where
  "string_of_runes val = concat (map utf8_encode val)"

text \<open>
  Go's conversion \<open>[]rune(tok)\<close> of a string literal of the source; every such
  literal is ASCII, so each character is one rune.
\<close>

definition runes_of_literal :: "string \<Rightarrow> rune list" where
  "runes_of_literal tok = map of_char tok"

subsection \<open>float64\<close>

text \<open>
  IEEE 754 binary64 values: \<open>Fin s m e\<close> is the finite value
  \<open>(-1)\<^sup>s * m * 2\<^sup>e\<close>, kept with \<open>m\<close> odd (or \<open>m = 0\<close>, \<open>e = 0\<close> for a
  zero, which has a sign); \<open>Inf s\<close> is an infinity and \<open>NaN\<close> a NaN.
  \<open>round_f64 s num den\<close> is the binary64 value nearest to the rational
  \<open>num / den\<close> (with \<open>den > 0\<close>), ties to even, with sign \<open>s\<close>: the unit in
  the last place is \<open>2\<^sup>u\<close> with \<open>u = max e (-1022) - 52\<close> for
  \<open>2\<^sup>e \<le> num / den < 2\<^sup>e\<^sup>+\<^sup>1\<close> (so subnormals are rounded to multiples
  of \<open>2\<^sup>-\<^sup>1\<^sup>0\<^sup>7\<^sup>4\<close>), and a result of \<open>2\<^sup>1\<^sup>0\<^sup>2\<^sup>4\<close> or more is an
  infinity.
\<close>

datatype f64 = Fin bool int int | Inf bool | NaN

text \<open>The number of binary digits of a positive integer.\<close>

function bits :: "int \<Rightarrow> int" where
  "bits n = (if n \<le> 0 then 0 else 1 + bits (n div 2))"
  by pat_completeness auto
termination
  by (relation "measure nat") auto

declare bits.simps [simp del]

text \<open>The normal form of \<open>m * 2\<^sup>e\<close>: an odd \<open>m\<close>, or \<open>(0, 0)\<close>.\<close>

function odd_part :: "int \<Rightarrow> int \<Rightarrow> int \<times> int" where
  "odd_part m e =
     (if m \<le> 0 then (0, 0) else if even m then odd_part (m div 2) (e + 1) else (m, e))"
  by pat_completeness auto
termination
  by (relation "measure (\<lambda>(m, e). nat m)") auto

declare odd_part.simps [simp del]

text \<open>\<open>n / d\<close> rounded to the nearest integer, ties to even.\<close>

definition round_nearest_even :: "int \<Rightarrow> int \<Rightarrow> int" where
  "round_nearest_even n d =
     (let f = n div d; r = n mod d in
      if 2 * r < d then f else if d < 2 * r then f + 1 else if even f then f else f + 1)"

text \<open>
  In \<open>round_f64\<close>, \<open>e\<close> is the binary exponent of \<open>num / den\<close>
  (\<open>2\<^sup>e \<le> num / den < 2\<^sup>e\<^sup>+\<^sup>1\<close>), found from the digit counts; \<open>m\<close>
  is \<open>num / den\<close> in units of \<open>2\<^sup>u\<close>, rounded; the result overflows when
  \<open>m * 2\<^sup>u \<ge> 2\<^sup>1\<^sup>0\<^sup>2\<^sup>4\<close>, that is when \<open>m\<close> has more than \<open>1024 - u\<close>
  digits.
\<close>

definition round_f64 :: "bool \<Rightarrow> int \<Rightarrow> int \<Rightarrow> f64" where
  "round_f64 s num den =
     (if num \<le> 0 then Fin s 0 0
      else
        let d = bits num - bits den;
            e = (if (if 0 \<le> d then den * 2 ^ nat d \<le> num else den \<le> num * 2 ^ nat (- d))
                 then d else d - 1);
            u = max e (- 1022) - 52;
            m = (if 0 \<le> u then round_nearest_even num (den * 2 ^ nat u)
                 else round_nearest_even (num * 2 ^ nat (- u)) den)
        in if 1024 - u < bits m then Inf s
           else case odd_part m u of (m', e') \<Rightarrow> Fin s m' e')"

text \<open>\<open>round_scaled s num den k\<close> rounds \<open>num / den * 2\<^sup>k\<close>.\<close>

definition round_scaled :: "bool \<Rightarrow> int \<Rightarrow> int \<Rightarrow> int \<Rightarrow> f64" where
  "round_scaled s num den k =
     (if 0 \<le> k then round_f64 s (num * 2 ^ nat k) den
      else round_f64 s num (den * 2 ^ nat (- k)))"

text \<open>The conversion \<open>float64(i)\<close> of an integer.\<close>

definition f64_of_int :: "int \<Rightarrow> f64" where
  "f64_of_int i = round_f64 (i < 0) \<bar>i\<bar> 1"

text \<open>Unary minus, \<open>+\<close>, \<open>*\<close> and \<open>/\<close> on \<open>float64\<close>.\<close>

fun fneg :: "f64 \<Rightarrow> f64" where
  "fneg (Fin s m e) = Fin (\<not> s) m e"
| "fneg (Inf s) = Inf (\<not> s)"
| "fneg NaN = NaN"

fun fadd :: "f64 \<Rightarrow> f64 \<Rightarrow> f64" where
  "fadd NaN y = NaN"
| "fadd x NaN = NaN"
| "fadd (Inf s) (Inf t) = (if s = t then Inf s else NaN)"
| "fadd (Inf s) (Fin t n k) = Inf s"
| "fadd (Fin s m e) (Inf t) = Inf t"
| "fadd (Fin s m e) (Fin t n k) =
     (let e0 = min e k;
          a = (if s then - 1 else 1) * m * 2 ^ nat (e - e0);
          b = (if t then - 1 else 1) * n * 2 ^ nat (k - e0);
          c = a + b
      in if c = 0 then Fin (s \<and> t) 0 0 else round_scaled (c < 0) \<bar>c\<bar> 1 e0)"

fun fmul :: "f64 \<Rightarrow> f64 \<Rightarrow> f64" where
  "fmul NaN y = NaN"
| "fmul x NaN = NaN"
| "fmul (Inf s) (Inf t) = Inf (s \<noteq> t)"
| "fmul (Inf s) (Fin t n k) = (if n = 0 then NaN else Inf (s \<noteq> t))"
| "fmul (Fin s m e) (Inf t) = (if m = 0 then NaN else Inf (s \<noteq> t))"
| "fmul (Fin s m e) (Fin t n k) = round_scaled (s \<noteq> t) (m * n) 1 (e + k)"

fun fdiv :: "f64 \<Rightarrow> f64 \<Rightarrow> f64" where
  "fdiv NaN y = NaN"
| "fdiv x NaN = NaN"
| "fdiv (Inf s) (Inf t) = NaN"
| "fdiv (Inf s) (Fin t n k) = Inf (s \<noteq> t)"
| "fdiv (Fin s m e) (Inf t) = Fin (s \<noteq> t) 0 0"
| "fdiv (Fin s m e) (Fin t n k) =
     (if n = 0 then (if m = 0 then NaN else Inf (s \<noteq> t))
      else round_scaled (s \<noteq> t) m n (e - k))"

section \<open>The UTF-8 decoder (utf8.go)\<close>

text \<open>
  The \<open>switch\<close> of \<open>ReadCode\<close> on the leading byte: it sets \<open>next\<close> and
  \<open>mask\<close> (\<open>mask_b\<close> below), or \<open>err\<close>.
\<close>

definition leading_switch :: "nat \<Rightarrow> byte \<Rightarrow> error + (nat \<times> byte)" where
  "leading_switch cur leading =
     (if leading < 0x80 then Inr (cur + 1, 0xff)
      else if leading < 0xc0 then Inl (DecodingError cur leading UnexpectedLeadingChar)
      else if leading < 0xe0 then Inr (cur + 2, 0x1f)
      else if leading < 0xf0 then Inr (cur + 3, 0x0f)
      else if leading < 0xf8 then Inr (cur + 4, 0x07)
      else Inl (DecodingError cur leading BadLeadingChar))"

text \<open>
  The folding loop \<open>for i := 0; i < numFollowing; i++\<close>: shift the accumulator by six
  bits and or in the low six bits of the byte at \<open>cur + 1 + i\<close>.
\<close>

definition fold_following :: "byte list \<Rightarrow> nat \<Rightarrow> nat \<Rightarrow> rune \<Rightarrow> rune" where
  "fold_following buf cur numFollowing code0 =
     fold (\<lambda>i code. push_bit 6 code OR uint (buf ! (cur + 1 + i) AND 0x3f))
       [0..<numFollowing] code0"

definition ReadCode :: "byte list \<Rightarrow> nat \<Rightarrow> error + (rune \<times> nat)" where
  "ReadCode buf cur =
     (if length buf \<le> cur then Inl (DecodingError cur 0 NoEnoughData)
      else
        let leading = buf ! cur in
        case leading_switch cur leading of
          Inl err \<Rightarrow> Inl err
        | Inr (next, mask_b) \<Rightarrow>
            let numFollowing = next - cur - 1 in
            if numFollowing + 1 > length buf - cur
            then Inl (DecodingError cur leading
                        (BufNotEnough (numFollowing + 1) (length buf - cur)))
            else Inr (fold_following buf cur numFollowing (uint (leading AND mask_b)), next))"

lemma ReadCode_advances:
  "ReadCode buf cur = Inr (code, next) \<Longrightarrow> cur < next \<and> next \<le> length buf"
  by (auto simp: ReadCode_def leading_switch_def Let_def split: if_splits)

text \<open>
  \<open>Decode\<close>: the loop \<open>for cur := 0; cur < len(input);\<close> with the output built so
  far.
\<close>

function Decode_loop :: "byte list \<Rightarrow> nat \<Rightarrow> rune list \<Rightarrow> error + rune list" where
  "Decode_loop input cur output =
     (if cur < length input then
        (case ReadCode input cur of
           Inl err \<Rightarrow> Inl err
         | Inr (code, next) \<Rightarrow> Decode_loop input next (output @ [code]))
      else Inr output)"
  by pat_completeness auto
termination
  by (relation "measure (\<lambda>(input, cur, output). length input - cur)")
     (auto dest!: ReadCode_advances)

declare Decode_loop.simps [simp del]

definition Decode :: "byte list \<Rightarrow> error + rune list" where
  "Decode input = Decode_loop input 0 []"

definition DecodeString :: "gostring \<Rightarrow> error + rune list" where
  "DecodeString input = Decode input"

section \<open>The parser (parser.go)\<close>

subsection \<open>JSON values\<close>

text \<open>
  \<open>JsonValue\<close> is \<open>interface{}\<close>; the dynamic types the parser stores in it are
  \<open>nil\<close>, \<open>bool\<close>, \<open>int64\<close>, \<open>float64\<close>, \<open>string\<close>, \<open>JsonArray\<close>,
  \<open>JsonMap\<close> and, while an object is being built, \<open>JsonKeyValue\<close>.  A
  \<open>JsonMap\<close> is a finite map from strings to values.
\<close>

datatype JsonValue =
    JNull
  | JBool bool
  | JInt "64 word"
  | JFloat f64
  | JString gostring
  | JArray "JsonValue list"
  | JMap "(gostring, JsonValue) fmap"
  | JKeyValue gostring JsonValue

subsection \<open>What the source leaves to the Go implementation\<close>

text \<open>
  The order in which \<open>range\<close> visits the keys of a map is unspecified in Go and may
  differ from one \<open>range\<close> statement to the next.  The two literal maps the parser
  ranges over have two and three keys, so an order is one of two, respectively six,
  permutations.  \<open>math.Pow10\<close> belongs to the Go standard library.  The parser takes
  all three as parameters: the order used by the \<open>range\<close> executed at a cursor
  position, and the function \<open>Pow10\<close>.
\<close>

datatype sign_order = PlusMinus | MinusPlus

datatype literal_order = TFN | TNF | FTN | FNT | NTF | NFT

record env =
  sign_range :: "nat \<Rightarrow> sign_order"
  literal_range :: "nat \<Rightarrow> literal_order"
  Pow10 :: "int \<Rightarrow> f64"

text \<open>The map \<open>{"+": false, "-": true}\<close>, in the order of a \<open>range\<close>.\<close>

fun sign_map :: "sign_order \<Rightarrow> (string \<times> bool) list" where
  "sign_map PlusMinus = [(''+'', False), (''-'', True)]"
| "sign_map MinusPlus = [(''-'', True), (''+'', False)]"

text \<open>
  The map \<open>{"true": true, "false": false, "null": nil}\<close>, in the order of a
  \<open>range\<close>.
\<close>

fun literal_map :: "literal_order \<Rightarrow> (string \<times> JsonValue) list" where
  "literal_map TFN = [(''true'', JBool True), (''false'', JBool False), (''null'', JNull)]"
| "literal_map TNF = [(''true'', JBool True), (''null'', JNull), (''false'', JBool False)]"
| "literal_map FTN = [(''false'', JBool False), (''true'', JBool True), (''null'', JNull)]"
| "literal_map FNT = [(''false'', JBool False), (''null'', JNull), (''true'', JBool True)]"
| "literal_map NTF = [(''null'', JNull), (''true'', JBool True), (''false'', JBool False)]"
| "literal_map NFT = [(''null'', JNull), (''false'', JBool False), (''true'', JBool True)]"

subsection \<open>Whitespace and tokens\<close>

text \<open>\<open>SkipSpace\<close>: space, tab, newline and carriage return are skipped.\<close>

function SkipSpace :: "rune list \<Rightarrow> nat \<Rightarrow> nat" where
  "SkipSpace input i =
     (if i < length input then
        (if input ! i = 0x20 \<or> input ! i = 0x09 \<or> input ! i = 0x0A \<or> input ! i = 0x0D
         then SkipSpace input (i + 1)
         else i)
      else length input)"
  by pat_completeness auto
termination
  by (relation "measure (\<lambda>(input, i). length input - i)") auto

declare SkipSpace.simps [simp del]

text \<open>
  The loop \<open>for i, ch := range tokrune\<close> of \<open>Consume\<close>: the index of the first
  rune of the token that differs from the input at \<open>next + i\<close>, if there is one.
\<close>

fun mismatch :: "rune list \<Rightarrow> nat \<Rightarrow> rune list \<Rightarrow> nat \<Rightarrow> nat option" where
  "mismatch input next [] i = None"
| "mismatch input next (ch # tokrune) i =
     (if input ! (next + i) \<noteq> ch then Some i else mismatch input next tokrune (i + 1))"

text \<open>
  \<open>Consume\<close> returns \<open>next\<close> together with \<open>err\<close>: its callers use \<open>next\<close>
  also when \<open>err\<close> is set, and \<open>next\<close> is then the position after the skipped
  whitespace.
\<close>

definition Consume :: "rune list \<Rightarrow> nat \<Rightarrow> string \<Rightarrow> nat \<times> error option" where
  "Consume input cur tok =
     (let next = SkipSpace input cur;
          tokrune = runes_of_literal tok
      in if length input - next < length tokrune
         then (next, Some (ParseError next (Expect tok)))
         else (case mismatch input next tokrune 0 of
                 Some i \<Rightarrow> (next, Some (ParseError (next + i) (Expect tok)))
               | None \<Rightarrow> (next + length tokrune, None)))"

subsection \<open>Strings\<close>

definition IsNoEscape :: "rune \<Rightarrow> bool" where
  "IsNoEscape ch \<longleftrightarrow>
     (0x23 \<le> ch \<and> ch \<le> 0x5b) \<or> (0x5d \<le> ch \<and> ch \<le> 0x10ffff) \<or> ch = 0x20 \<or> ch = 0x21"

text \<open>
  \<open>Hex2Num\<close> reads \<open>input[cur]\<close>; its only caller \<open>ScanHex\<close> has checked the
  bound before.
\<close>

definition Hex2Num :: "rune list \<Rightarrow> nat \<Rightarrow> error + rune" where
  "Hex2Num input cur =
     (if length input \<le> cur then Inl IndexOutOfRangePanic
      else
        let ch = input ! cur in
        if 0x30 \<le> ch \<and> ch \<le> 0x39 then Inr (ch - 0x30)
        else if 0x61 \<le> ch \<and> ch \<le> 0x66 then Inr (ch - 0x61 + 10)
        else if 0x41 \<le> ch \<and> ch \<le> 0x46 then Inr (ch - 0x41 + 10)
        else Inl (ParseError cur (ExpectHex ch)))"

function ScanHex_loop :: "rune list \<Rightarrow> nat \<Rightarrow> nat \<Rightarrow> rune \<Rightarrow> error + rune" where
  "ScanHex_loop input cur i val =
     (if i < 4 then
        (case Hex2Num input (cur + i) of
           Inl err \<Rightarrow> Inl err
         | Inr d \<Rightarrow> ScanHex_loop input cur (i + 1) (push_bit 4 val OR d))
      else Inr val)"
  by pat_completeness auto
termination
  by (relation "measure (\<lambda>(input, cur, i, val). 4 - i)") auto

declare ScanHex_loop.simps [simp del]

definition ScanHex :: "rune list \<Rightarrow> nat \<Rightarrow> error + rune" where
  "ScanHex input cur =
     (if cur + 4 > length input then Inl (ParseError cur Expect4HexDigit)
      else ScanHex_loop input cur 0 0)"

definition ParseEscape :: "rune list \<Rightarrow> nat \<Rightarrow> error + (rune \<times> nat)" where
  "ParseEscape input cur =
     (if cur \<ge> length input then Inl (ParseError cur StringNotTerminatedExpectEscape)
      else
        let ch = input ! cur in
        if ch = 0x22 \<or> ch = 0x5C \<or> ch = 0x2F then Inr (ch, cur + 1)
        else if ch = 0x62 then Inr (0x08, cur + 1)
        else if ch = 0x66 then Inr (0x0C, cur + 1)
        else if ch = 0x6E then Inr (0x0A, cur + 1)
        else if ch = 0x72 then Inr (0x0D, cur + 1)
        else if ch = 0x74 then Inr (0x09, cur + 1)
        else if ch = 0x75 then
          (case ScanHex input (cur + 1) of
             Inl err \<Rightarrow> Inl err
           | Inr val \<Rightarrow> Inr (val, cur + 1 + 3 + 1))
        else Inl (ParseError cur (BadEscapeChar ch)))"

lemma ParseEscape_advances:
  "ParseEscape input cur = Inr (val, next) \<Longrightarrow> cur < next"
  by (auto simp: ParseEscape_def Let_def split: if_splits sum.splits)

text \<open>The loop \<open>for next < len(input)\<close> of \<open>ParseString\<close>, with \<open>val\<close>.\<close>

function ParseString_loop ::
  "rune list \<Rightarrow> nat \<Rightarrow> rune list \<Rightarrow> error + (gostring \<times> nat)" where
  "ParseString_loop input next val =
     (if next < length input then
        let ch = input ! next in
        if ch = 0x22 then Inr (string_of_runes val, next + 1)
        else if ch = 0x5C then
          (case ParseEscape input (next + 1) of
             Inl err \<Rightarrow> Inl err
           | Inr (ch', next') \<Rightarrow> ParseString_loop input next' (val @ [ch']))
        else if IsNoEscape ch then ParseString_loop input (next + 1) (val @ [ch])
        else Inl (ParseError next (UnescapedChar ch))
      else Inl (ParseError next StringNotTerminated))"
  by pat_completeness auto
termination
  by (relation "measure (\<lambda>(input, next, val). length input - next)")
     (auto dest!: ParseEscape_advances)

declare ParseString_loop.simps [simp del]

definition ParseString :: "rune list \<Rightarrow> nat \<Rightarrow> error + (gostring \<times> nat)" where
  "ParseString input cur =
     (case Consume input cur [CHR 0x22] of
        (next, Some err) \<Rightarrow> Inl err
      | (next, None) \<Rightarrow> ParseString_loop input next [])"

subsection \<open>Numbers\<close>

definition IsDigit :: "rune \<Rightarrow> bool" where
  "IsDigit ch \<longleftrightarrow> 0x30 \<le> ch \<and> ch \<le> 0x39"

text \<open>
  The loop of \<open>ScanInt\<close>; \<open>value\<close> is an \<open>int64\<close>, so \<open>*\<close> and \<open>+\<close>
  wrap around.
\<close>

function ScanInt_loop :: "rune list \<Rightarrow> nat \<Rightarrow> 64 word \<Rightarrow> 64 word \<times> nat" where
  "ScanInt_loop input next val =
     (if next < length input \<and> IsDigit (input ! next)
      then ScanInt_loop input (next + 1) (val * 10 + word_of_int (input ! next - 0x30))
      else (val, next))"
  by pat_completeness auto
termination
  by (relation "measure (\<lambda>(input, next, val). length input - next)") auto

declare ScanInt_loop.simps [simp del]

definition ScanInt :: "rune list \<Rightarrow> nat \<Rightarrow> error + (64 word \<times> nat)" where
  "ScanInt input cur =
     (if \<not> (cur < length input \<and> IsDigit (input ! cur)) then Inl (ParseError cur ExpectDigits)
      else Inr (ScanInt_loop input cur 0))"

text \<open>The loop of the fractional part of \<open>ParseNum\<close>, with \<open>frac\<close> and \<open>scale\<close>.\<close>

function frac_loop :: "rune list \<Rightarrow> nat \<Rightarrow> f64 \<Rightarrow> f64 \<Rightarrow> f64 \<times> nat" where
  "frac_loop input next fracv scale =
     (if next < length input \<and> IsDigit (input ! next)
      then frac_loop input (next + 1)
             (fadd fracv (fdiv (f64_of_int (input ! next - 0x30)) scale))
             (fmul scale (f64_of_int 10))
      else (fracv, next))"
  by pat_completeness auto
termination
  by (relation "measure (\<lambda>(input, next, fracv, scale). length input - next)") auto

declare frac_loop.simps [simp del]

text \<open>
  The block "frac part" of \<open>ParseNum\<close>: it yields \<open>isfloat\<close>, \<open>frac\<close> and
  \<open>next\<close>.
\<close>

definition frac_part :: "rune list \<Rightarrow> nat \<Rightarrow> error + (bool \<times> f64 \<times> nat)" where
  "frac_part input next =
     (if next < length input \<and> input ! next = 0x2E then
        (if \<not> (next + 1 < length input \<and> IsDigit (input ! (next + 1)))
         then Inl (ParseError (next + 1) ExpectDigits)
         else case frac_loop input (next + 1) (f64_of_int 0) (f64_of_int 10) of
                (fracv, next') \<Rightarrow> Inr (True, fracv, next'))
      else Inr (False, f64_of_int 0, next))"

text \<open>
  The loop \<open>for sign, val := range map[string]bool{"+": false, "-": true}\<close>: it
  yields \<open>next\<close> and \<open>expneg\<close>; the \<open>err\<close> it leaves is overwritten by the
  \<open>ScanInt\<close> that follows.
\<close>

fun sign_loop :: "(string \<times> bool) list \<Rightarrow> rune list \<Rightarrow> nat \<Rightarrow> bool \<Rightarrow> nat \<times> bool" where
  "sign_loop [] input next expneg = (next, expneg)"
| "sign_loop ((sign, val) # rest) input next expneg =
     (case Consume input next sign of
        (next', None) \<Rightarrow> (next', val)
      | (next', Some err) \<Rightarrow> sign_loop rest input next' expneg)"

text \<open>
  The block "exp part" of \<open>ParseNum\<close>: it yields \<open>isfloat\<close>, \<open>hasexp\<close>,
  \<open>expnum\<close> and \<open>next\<close>.
\<close>

definition exp_part ::
  "env \<Rightarrow> rune list \<Rightarrow> nat \<Rightarrow> bool \<Rightarrow> error + (bool \<times> bool \<times> 64 word \<times> nat)" where
  "exp_part \<Gamma> input next isfloat =
     (if next < length input \<and> (input ! next = 0x65 \<or> input ! next = 0x45) then
        (case sign_loop (sign_map (sign_range \<Gamma> (next + 1))) input (next + 1) False of
           (next', expneg) \<Rightarrow>
             (case ScanInt input next' of
                Inl err \<Rightarrow> Inl err
              | Inr (expnum, next'') \<Rightarrow>
                  Inr (True, True, if expneg then - expnum else expnum, next'')))
      else Inr (isfloat, False, 0, next))"

text \<open>
  \<open>ParseNum\<close>.  \<open>int(expnum)\<close> is the identity on a 64-bit platform, which is
  assumed; \<open>float64(whole)\<close> converts the signed value of \<open>whole\<close>.
\<close>

definition ParseNum :: "env \<Rightarrow> rune list \<Rightarrow> nat \<Rightarrow> error + (JsonValue \<times> nat)" where
  "ParseNum \<Gamma> input cur =
     (case Consume input cur ''-'' of
        (next, suberr) \<Rightarrow>
          let neg = (suberr = None) in
          if next \<ge> length input then Inl (ParseError next ExpectsDigitsGotEOS)
          else
            case (if input ! next = 0x30 then Inr (0, next + 1) else ScanInt input next) of
              Inl err \<Rightarrow> Inl err
            | Inr (whole, next1) \<Rightarrow>
                (case frac_part input next1 of
                   Inl err \<Rightarrow> Inl err
                 | Inr (isfloat, fracv, next2) \<Rightarrow>
                     (case exp_part \<Gamma> input next2 isfloat of
                        Inl err \<Rightarrow> Inl err
                      | Inr (isfloat', hasexp, expnum, next3) \<Rightarrow>
                          if \<not> isfloat' then
                            Inr (JInt (if neg then - whole else whole), next3)
                          else
                            let fval = fadd (f64_of_int (sint whole)) fracv;
                                fval' = (if hasexp then fmul fval (Pow10 \<Gamma> (sint expnum))
                                         else fval)
                            in Inr (JFloat (if neg then fneg fval' else fval'), next3))))"

subsection \<open>Booleans and null\<close>

text \<open>
  The loop \<open>for literal, val := range map[string]JsonValue{...}\<close> of
  \<open>ParseBoolNull\<close>; \<open>next\<close> is the result of the last \<open>Consume\<close>, and the
  zero value before the first.
\<close>

fun literal_loop ::
  "(string \<times> JsonValue) list \<Rightarrow> rune list \<Rightarrow> nat \<Rightarrow> nat \<Rightarrow> error + (JsonValue \<times> nat)" where
  "literal_loop [] input cur next = Inl (ParseError next ExpectTrueFalseNull)"
| "literal_loop ((literal, val) # rest) input cur next =
     (case Consume input cur literal of
        (next', None) \<Rightarrow> Inr (val, next')
      | (next', Some suberr) \<Rightarrow> literal_loop rest input cur next')"

definition ParseBoolNull :: "env \<Rightarrow> rune list \<Rightarrow> nat \<Rightarrow> error + (JsonValue \<times> nat)" where
  "ParseBoolNull \<Gamma> input cur = literal_loop (literal_map (literal_range \<Gamma> cur)) input cur 0"

subsection \<open>Values, arrays and objects\<close>

text \<open>
  The two values of type \<open>ParseFunc\<close> that the source passes to
  \<open>ParseArrayLike\<close>.
\<close>

datatype ParseFunc = ParseAny_func | ParseKeyValue_func

text \<open>
  The conversion loop of \<open>ParseMap\<close>: each item is asserted to be a
  \<open>JsonKeyValue\<close> and stored under its key, a later item replacing an earlier one
  with the same key.
\<close>

fun convert_items ::
  "JsonValue list \<Rightarrow> (gostring, JsonValue) fmap \<Rightarrow> error + (gostring, JsonValue) fmap" where
  "convert_items [] jmap = Inr jmap"
| "convert_items (JKeyValue key val # items) jmap = convert_items items (fmupd key val jmap)"
| "convert_items (item # items) jmap = Inl TypeAssertionPanic"

text \<open>
  \<open>ParseAny\<close>, \<open>ParseArray\<close>, \<open>ParseMap\<close>, \<open>ParseKeyValue\<close> and
  \<open>ParseArrayLike\<close> call one another; \<open>ParseArrayLike_loop\<close> is the
  \<open>for\<close> loop of \<open>ParseArrayLike\<close> with \<open>next\<close> and \<open>arr\<close>.
\<close>

function (domintros)
  ParseAny :: "env \<Rightarrow> rune list \<Rightarrow> nat \<Rightarrow> error + (JsonValue \<times> nat)"
  and ParseArray :: "env \<Rightarrow> rune list \<Rightarrow> nat \<Rightarrow> error + (JsonValue \<times> nat)"
  and ParseMap :: "env \<Rightarrow> rune list \<Rightarrow> nat \<Rightarrow> error + (JsonValue \<times> nat)"
  and ParseKeyValue :: "env \<Rightarrow> rune list \<Rightarrow> nat \<Rightarrow> error + (JsonValue \<times> nat)"
  and ParseArrayLike ::
    "env \<Rightarrow> rune list \<Rightarrow> nat \<Rightarrow> ParseFunc \<Rightarrow> string \<times> string \<Rightarrow> error + (JsonValue \<times> nat)"
  and ParseArrayLike_loop ::
    "env \<Rightarrow> rune list \<Rightarrow> nat \<Rightarrow> ParseFunc \<Rightarrow> string \<times> string \<Rightarrow> JsonValue list
       \<Rightarrow> error + (JsonValue \<times> nat)"
where
  "ParseAny \<Gamma> input cur =
     (let next = SkipSpace input cur in
      if next \<ge> length input then Inl (ParseError next ExpectSomethingGotEOS)
      else
        let ch = input ! next in
        if ch = 0x5B then ParseArray \<Gamma> input next
        else if ch = 0x7B then ParseMap \<Gamma> input next
        else if ch = 0x22 then
          (case ParseString input next of
             Inl err \<Rightarrow> Inl err
           | Inr (val, next') \<Rightarrow> Inr (JString val, next'))
        else if (0x30 \<le> ch \<and> ch \<le> 0x39) \<or> ch = 0x2D then ParseNum \<Gamma> input next
        else if ch = 0x74 \<or> ch = 0x66 \<or> ch = 0x6E then ParseBoolNull \<Gamma> input next
        else Inl (ParseError next (BadChar ch)))"
| "ParseArray \<Gamma> input cur = ParseArrayLike \<Gamma> input cur ParseAny_func (''['', '']'')"
| "ParseMap \<Gamma> input cur =
     (case ParseArrayLike \<Gamma> input cur ParseKeyValue_func (''{'', ''}'') of
        Inl err \<Rightarrow> Inl err
      | Inr (val, next) \<Rightarrow>
          (case val of
             JArray items \<Rightarrow>
               (case convert_items items fmempty of
                  Inl err \<Rightarrow> Inl err
                | Inr jmap \<Rightarrow> Inr (JMap jmap, next))
           | _ \<Rightarrow> Inl TypeAssertionPanic))"
| "ParseKeyValue \<Gamma> input cur =
     (case ParseString input cur of
        Inl err \<Rightarrow> Inl err
      | Inr (key, next) \<Rightarrow>
          (case Consume input next '':'' of
             (next1, Some err) \<Rightarrow> Inl err
           | (next1, None) \<Rightarrow>
               (case ParseAny \<Gamma> input next1 of
                  Inl err \<Rightarrow> Inl err
                | Inr (val, next2) \<Rightarrow> Inr (JKeyValue key val, next2))))"
| "ParseArrayLike \<Gamma> input cur itemParser bracket =
     (case Consume input cur (fst bracket) of
        (next, Some err) \<Rightarrow> Inl err
      | (next, None) \<Rightarrow>
          (case Consume input next (snd bracket) of
             (next1, None) \<Rightarrow> Inr (JArray [], next1)
           | (next1, Some suberr) \<Rightarrow>
               ParseArrayLike_loop \<Gamma> input next1 itemParser bracket []))"
| "ParseArrayLike_loop \<Gamma> input next itemParser bracket arr =
     (case (case itemParser of
              ParseAny_func \<Rightarrow> ParseAny \<Gamma> input next
            | ParseKeyValue_func \<Rightarrow> ParseKeyValue \<Gamma> input next) of
        Inl err \<Rightarrow> Inl err
      | Inr (subval, next1) \<Rightarrow>
          (case Consume input next1 '','' of
             (next2, None) \<Rightarrow>
               ParseArrayLike_loop \<Gamma> input next2 itemParser bracket (arr @ [subval])
           | (next2, Some suberr) \<Rightarrow>
               (case Consume input next2 (snd bracket) of
                  (next3, Some suberr') \<Rightarrow>
                    Inl (ParseError next3 (ExpectCloseOrComma (snd bracket)))
                | (next3, None) \<Rightarrow> Inr (JArray (arr @ [subval]), next3))))"
  by pat_completeness auto

subsection \<open>Termination\<close>

text \<open>
  Every production that succeeds returns a position strictly after the one it was
  called at and not beyond the end of the input.  For the mutually recursive
  productions this is first shown on the domain of the functions, which gives their
  termination: the distance to the end of the input decreases from a call to the
  next, or stays and the call goes from a production to one it is built from.
\<close>

lemma SkipSpace_le: "SkipSpace input i \<le> length input"
  by (induction input i rule: SkipSpace.induct) (subst SkipSpace.simps, simp)

lemma SkipSpace_ge: "i \<le> length input \<Longrightarrow> i \<le> SkipSpace input i"
proof (induction input i rule: SkipSpace.induct)
  case (1 input i)
  show ?case
  proof (cases "i < length input \<and> (input ! i = 0x20 \<or> input ! i = 0x09 \<or> input ! i = 0x0A \<or> input ! i = 0x0D)")
    case True
    then have "Suc i \<le> SkipSpace input (i + 1)" using 1 by simp
    then show ?thesis using True by (subst SkipSpace.simps) simp
  next
    case False
    then show ?thesis using 1(2) by (subst SkipSpace.simps) auto
  qed
qed

lemma SkipSpace_beyond: "length input \<le> i \<Longrightarrow> SkipSpace input i = length input"
  by (subst SkipSpace.simps) simp

lemma Consume_None:
  "Consume input cur tok = (next, None) \<Longrightarrow>
     next = SkipSpace input cur + length tok \<and> next \<le> length input"
  using SkipSpace_le [of input cur]
  by (auto simp: Consume_def Let_def runes_of_literal_def split: if_splits option.splits)

lemma Consume_Some:
  "Consume input cur tok = (next, Some e) \<Longrightarrow> next = SkipSpace input cur"
  by (auto simp: Consume_def Let_def split: if_splits option.splits)

lemma Consume_advances:
  assumes "Consume input cur tok = (nxt, None)" "tok \<noteq> []"
  shows "cur < nxt \<and> nxt \<le> length input"
proof (cases "cur \<le> length input")
  case True
  with SkipSpace_ge [OF True] Consume_None [OF assms(1)] assms(2) show ?thesis
    by (cases tok) simp_all
next
  case False
  then have "SkipSpace input cur = length input" by (simp add: SkipSpace_beyond)
  with assms show ?thesis
    by (cases tok) (simp_all add: Consume_def Let_def runes_of_literal_def)
qed

lemma Consume_fst_le: "fst (Consume input cur tok) \<le> length input"
  using SkipSpace_le [of input cur]
  by (auto simp: Consume_def Let_def runes_of_literal_def split: if_splits option.splits)

lemma ParseEscape_le:
  "ParseEscape input cur = Inr (val, next) \<Longrightarrow> next \<le> length input"
  by (auto simp: ParseEscape_def ScanHex_def Let_def split: if_splits sum.splits)

lemma ParseString_loop_advances:
  "ParseString_loop input next val = Inr (s, n) \<Longrightarrow> next < n \<and> n \<le> length input"
proof (induction input "next" val rule: ParseString_loop.induct)
  case (1 input "next" val)
  note eq = "1.prems" [unfolded ParseString_loop.simps [of input "next" val]]
  show ?case
  proof (cases "next < length input")
    case False
    with eq show ?thesis by simp
  next
    case lt: True
    consider (quote) "input ! next = 0x22"
      | (esc) "input ! next = 0x5C"
      | (lit) "input ! next \<noteq> 0x22" "input ! next \<noteq> 0x5C" "IsNoEscape (input ! next)"
      | (bad) "input ! next \<noteq> 0x22" "input ! next \<noteq> 0x5C" "\<not> IsNoEscape (input ! next)"
      by blast
    then show ?thesis
    proof cases
      case quote
      with eq lt show ?thesis by (simp add: Let_def)
    next
      case esc
      with eq lt obtain ch' next' where
        pe: "ParseEscape input (next + 1) = Inr (ch', next')"
        and rest: "ParseString_loop input next' (val @ [ch']) = Inr (s, n)"
        by (auto simp: Let_def split: sum.splits)
      have "next' < n \<and> n \<le> length input"
        using "1.IH"(1) lt esc pe rest by simp
      moreover have "next + 1 < next'" using ParseEscape_advances [OF pe] .
      ultimately show ?thesis by simp
    next
      case lit
      with eq lt have rest: "ParseString_loop input (next + 1) (val @ [input ! next]) = Inr (s, n)"
        by (simp add: Let_def)
      have "next + 1 < n \<and> n \<le> length input"
        using "1.IH"(2) lt lit rest by simp
      then show ?thesis by simp
    next
      case bad
      with eq lt show ?thesis by (simp add: Let_def)
    qed
  qed
qed

lemma ParseString_advances:
  "ParseString input cur = Inr (s, n) \<Longrightarrow> cur < n \<and> n \<le> length input"
proof -
  assume a: "ParseString input cur = Inr (s, n)"
  then obtain nxt where c: "Consume input cur [CHR 0x22] = (nxt, None)"
    and l: "ParseString_loop input nxt [] = Inr (s, n)"
    by (auto simp: ParseString_def split: prod.splits option.splits)
  from Consume_advances [OF c] have "cur < nxt" by simp
  then show ?thesis using ParseString_loop_advances [OF l] by simp
qed

lemma ScanInt_loop_bounds:
  "ScanInt_loop input nxt val = (v, n) \<Longrightarrow> nxt \<le> length input \<Longrightarrow>
     nxt \<le> n \<and> n \<le> length input"
proof (induction input nxt val rule: ScanInt_loop.induct)
  case (1 input nxt val)
  show ?case
  proof (cases "nxt < length input \<and> IsDigit (input ! nxt)")
    case True
    with "1.prems" have "ScanInt_loop input (nxt + 1)
        (val * 10 + word_of_int (input ! nxt - 0x30)) = (v, n)"
      by (subst (asm) ScanInt_loop.simps) simp
    with "1.IH" True show ?thesis by auto
  next
    case False
    with "1.prems" show ?thesis by (subst (asm) ScanInt_loop.simps) auto
  qed
qed

lemma ScanInt_advances:
  assumes "ScanInt input cur = Inr (v, n)"
  shows "cur < n \<and> n \<le> length input"
proof -
  from assms have d: "cur < length input" "IsDigit (input ! cur)"
    and l: "ScanInt_loop input cur 0 = (v, n)"
    by (auto simp: ScanInt_def split: if_splits)
  from l d have "ScanInt_loop input (cur + 1) (0 * 10 + word_of_int (input ! cur - 0x30)) = (v, n)"
    by (subst (asm) ScanInt_loop.simps) simp
  from ScanInt_loop_bounds [OF this] d show ?thesis by simp
qed

lemma frac_loop_bounds:
  "frac_loop input nxt fr sc = (v, n) \<Longrightarrow> nxt \<le> length input \<Longrightarrow>
     nxt \<le> n \<and> n \<le> length input"
proof (induction input nxt fr sc rule: frac_loop.induct)
  case (1 input nxt fr sc)
  show ?case
  proof (cases "nxt < length input \<and> IsDigit (input ! nxt)")
    case True
    with "1.prems" have "frac_loop input (nxt + 1)
        (fadd fr (fdiv (f64_of_int (input ! nxt - 0x30)) sc)) (fmul sc (f64_of_int 10)) = (v, n)"
      by (subst (asm) frac_loop.simps) simp
    with "1.IH" True show ?thesis by auto
  next
    case False
    with "1.prems" show ?thesis by (subst (asm) frac_loop.simps) auto
  qed
qed

lemma frac_part_bounds:
  "frac_part input nxt = Inr (isf, fr, n) \<Longrightarrow> nxt \<le> length input \<Longrightarrow>
     nxt \<le> n \<and> n \<le> length input"
  by (auto simp: frac_part_def split: if_splits prod.splits dest!: frac_loop_bounds)

lemma sign_loop_bounds:
  "sign_loop ms input nxt b = (n, b') \<Longrightarrow> nxt \<le> length input \<Longrightarrow>
     nxt \<le> n \<and> n \<le> length input"
proof (induction ms input nxt b rule: sign_loop.induct)
  case (1 input nxt expneg)
  then show ?case by simp
next
  case (2 sign val rest input nxt expneg)
  obtain n1 e1 where c: "Consume input nxt sign = (n1, e1)" by (cases "Consume input nxt sign")
  show ?case
  proof (cases e1)
    case None
    with c "2.prems" have "n = n1" by simp
    moreover from Consume_None [OF c [unfolded None]] SkipSpace_ge [OF "2.prems"(2)]
    have "nxt \<le> n1 \<and> n1 \<le> length input" by simp
    ultimately show ?thesis by simp
  next
    case (Some err)
    with c "2.prems" have r: "sign_loop rest input n1 expneg = (n, b')" by simp
    from Consume_Some [OF c [unfolded Some]] have n1: "n1 = SkipSpace input nxt" .
    then have b: "nxt \<le> n1" "n1 \<le> length input"
      using SkipSpace_ge [OF "2.prems"(2)] SkipSpace_le [of input nxt] by simp_all
    from "2.IH" [OF c [symmetric] Some r b(2)] b show ?thesis by simp
  qed
qed

lemma exp_part_bounds:
  "exp_part \<Gamma> input nxt isf = Inr (isf', he, ex, n) \<Longrightarrow> nxt \<le> length input \<Longrightarrow>
     nxt \<le> n \<and> n \<le> length input"
  apply (auto simp: exp_part_def split: if_splits prod.splits sum.splits)
  apply (auto dest!: sign_loop_bounds ScanInt_advances)
  done

lemma SkipSpace_ge_if_lt:
  "SkipSpace input cur < length input \<Longrightarrow> cur \<le> SkipSpace input cur"
  by (cases "cur \<le> length input") (simp_all add: SkipSpace_ge SkipSpace_beyond)

lemma ParseNum_advances:
  assumes "ParseNum \<Gamma> input cur = Inr (v, n)"
  shows "cur < n \<and> n \<le> length input"
proof -
  obtain nxt suberr where c: "Consume input cur ''-'' = (nxt, suberr)"
    by (cases "Consume input cur ''-''")
  from assms c have lt: "nxt < length input"
    by (auto simp: ParseNum_def Let_def split: if_splits)
  from assms c lt obtain whole n1 isf fr n2 isf' he ex where
    w: "(if input ! nxt = 0x30 then Inr (0, nxt + 1) else ScanInt input nxt) = Inr (whole, n1)"
    and f: "frac_part input n1 = Inr (isf, fr, n2)"
    and e: "exp_part \<Gamma> input n2 isf = Inr (isf', he, ex, n)"
    by (auto simp: ParseNum_def Let_def split: if_splits sum.splits prod.splits)
  have a: "cur \<le> nxt"
  proof (cases suberr)
    case None
    with Consume_advances [of input cur "''-''" nxt] c show ?thesis by simp
  next
    case (Some err)
    with Consume_Some [of input cur "''-''" nxt err] c lt SkipSpace_ge_if_lt [of input cur]
    show ?thesis by simp
  qed
  have b: "nxt < n1 \<and> n1 \<le> length input"
    using w lt ScanInt_advances [of input nxt whole n1] by (auto split: if_splits)
  from frac_part_bounds [OF f] b have c2: "n1 \<le> n2 \<and> n2 \<le> length input" by simp
  from exp_part_bounds [OF e] c2 have "n2 \<le> n \<and> n \<le> length input" by simp
  with a b c2 show ?thesis by simp
qed

lemma literal_loop_advances:
  "literal_loop ms input cur nx = Inr (v, n) \<Longrightarrow> list_all (\<lambda>(l, v). l \<noteq> []) ms \<Longrightarrow>
     cur < n \<and> n \<le> length input"
proof (induction ms input cur nx rule: literal_loop.induct)
  case (1 input cur nx)
  then show ?case by simp
next
  case (2 literal val rest input cur nx)
  obtain n1 e1 where c: "Consume input cur literal = (n1, e1)"
    by (cases "Consume input cur literal")
  show ?case
  proof (cases e1)
    case None
    with c "2.prems" have "n = n1" by simp
    with Consume_advances [OF c [unfolded None]] "2.prems"(2) show ?thesis by simp
  next
    case (Some err)
    with c "2.prems" have r: "literal_loop rest input cur n1 = Inr (v, n)" by simp
    from "2.IH" [OF c [symmetric] Some r] "2.prems"(2) show ?thesis by simp
  qed
qed

lemma ParseBoolNull_advances:
  "ParseBoolNull \<Gamma> input cur = Inr (v, n) \<Longrightarrow> cur < n \<and> n \<le> length input"
  unfolding ParseBoolNull_def
  by (erule literal_loop_advances) (cases "literal_range \<Gamma> cur"; simp)

lemma Parse_partial_advances:
  "ParseAny_ParseArray_ParseMap_ParseKeyValue_ParseArrayLike_ParseArrayLike_loop_dom
     (Inl (Inl (\<Gamma>, input, cur))) \<Longrightarrow>
   \<forall>v n. ParseAny \<Gamma> input cur = Inr (v, n) \<longrightarrow> cur < n \<and> n \<le> length input"
  "ParseAny_ParseArray_ParseMap_ParseKeyValue_ParseArrayLike_ParseArrayLike_loop_dom
     (Inl (Inr (Inl (\<Gamma>, input, cur)))) \<Longrightarrow>
   \<forall>v n. ParseArray \<Gamma> input cur = Inr (v, n) \<longrightarrow> cur < n \<and> n \<le> length input"
  "ParseAny_ParseArray_ParseMap_ParseKeyValue_ParseArrayLike_ParseArrayLike_loop_dom
     (Inl (Inr (Inr (\<Gamma>, input, cur)))) \<Longrightarrow>
   \<forall>v n. ParseMap \<Gamma> input cur = Inr (v, n) \<longrightarrow> cur < n \<and> n \<le> length input"
  "ParseAny_ParseArray_ParseMap_ParseKeyValue_ParseArrayLike_ParseArrayLike_loop_dom
     (Inr (Inl (\<Gamma>, input, cur))) \<Longrightarrow>
   \<forall>v n. ParseKeyValue \<Gamma> input cur = Inr (v, n) \<longrightarrow> cur < n \<and> n \<le> length input"
  "ParseAny_ParseArray_ParseMap_ParseKeyValue_ParseArrayLike_ParseArrayLike_loop_dom
     (Inr (Inr (Inl (\<Gamma>, input, cur, itemParser, bracket)))) \<Longrightarrow>
   fst bracket \<noteq> [] \<longrightarrow>
   (\<forall>v n. ParseArrayLike \<Gamma> input cur itemParser bracket = Inr (v, n) \<longrightarrow>
      cur < n \<and> n \<le> length input)"
  "ParseAny_ParseArray_ParseMap_ParseKeyValue_ParseArrayLike_ParseArrayLike_loop_dom
     (Inr (Inr (Inr (\<Gamma>, input, nxt, itemParser, bracket, arr)))) \<Longrightarrow>
   \<forall>v n. ParseArrayLike_loop \<Gamma> input nxt itemParser bracket arr = Inr (v, n) \<longrightarrow>
      nxt < n \<and> n \<le> length input"
proof (induct rule: ParseAny_ParseArray_ParseMap_ParseKeyValue_ParseArrayLike_ParseArrayLike_loop.pinduct)
  case (1 \<Gamma> input cur)
  let ?nx = "SkipSpace input cur"
  let ?ch = "input ! ?nx"
  note ps = ParseAny.psimps [OF "1.hyps"(1)]
  show ?case
  proof (intro allI impI)
    fix v n
    assume r: "ParseAny \<Gamma> input cur = Inr (v, n)"
    have lt: "\<not> length input \<le> ?nx"
      using r by (auto simp: ps Let_def)
    then have ge: "cur \<le> ?nx" using SkipSpace_ge_if_lt [of input cur] by simp
    have "?nx < n \<and> n \<le> length input"
    proof (cases "?ch = 0x5B")
      case True
      with r lt have "ParseArray \<Gamma> input ?nx = Inr (v, n)" by (simp add: ps Let_def)
      with "1.hyps"(2) [OF refl lt refl True] show ?thesis by simp
    next
      case n1: False
      show ?thesis
      proof (cases "?ch = 0x7B")
        case True
        with r lt n1 have "ParseMap \<Gamma> input ?nx = Inr (v, n)" by (simp add: ps Let_def)
        with "1.hyps"(3) [OF refl lt refl n1 True] show ?thesis by simp
      next
        case n2: False
        show ?thesis
        proof (cases "?ch = 0x22")
          case True
          with r lt n1 n2 obtain s where "ParseString input ?nx = Inr (s, n)"
            by (auto simp: ps Let_def split: sum.splits)
          then show ?thesis by (rule ParseString_advances)
        next
          case n3: False
          show ?thesis
          proof (cases "(0x30 \<le> ?ch \<and> ?ch \<le> 0x39) \<or> ?ch = 0x2D")
            case True
            with r lt n1 n2 n3 have "ParseNum \<Gamma> input ?nx = Inr (v, n)"
              by (simp add: ps Let_def)
            then show ?thesis by (rule ParseNum_advances)
          next
            case n4: False
            with r lt n1 n2 n3 have "ParseBoolNull \<Gamma> input ?nx = Inr (v, n)"
              by (simp add: ps Let_def split: if_splits)
            then show ?thesis by (rule ParseBoolNull_advances)
          qed
        qed
      qed
    qed
    with ge show "cur < n \<and> n \<le> length input" by simp
  qed
next
  case (2 \<Gamma> input cur)
  then show ?case by (simp add: ParseArray.psimps)
next
  case (3 \<Gamma> input cur)
  then show ?case
    by (auto simp: ParseMap.psimps split: sum.splits JsonValue.splits)
next
  case (4 \<Gamma> input cur)
  note ps = ParseKeyValue.psimps [OF "4.hyps"(1)]
  show ?case
  proof (intro allI impI)
    fix v n
    assume r: "ParseKeyValue \<Gamma> input cur = Inr (v, n)"
    then obtain key n0 n1 val where
      s: "ParseString input cur = Inr (key, n0)"
      and c: "Consume input n0 '':'' = (n1, None)"
      and a: "ParseAny \<Gamma> input n1 = Inr (val, n)"
      by (auto simp: ps split: sum.splits prod.splits option.splits)
    from "4.hyps"(2) [OF s refl c [symmetric] refl] a
    have "n1 < n \<and> n \<le> length input" by simp
    moreover from ParseString_advances [OF s] have "cur < n0" by simp
    moreover from Consume_advances [OF c] have "n0 < n1" by simp
    ultimately show "cur < n \<and> n \<le> length input" by simp
  qed
next
  case (5 \<Gamma> input cur itemParser bracket)
  note ps = ParseArrayLike.psimps [OF "5.hyps"(1)]
  show ?case
  proof (intro allI impI)
    fix v n
    assume ne: "fst bracket \<noteq> []"
    assume r: "ParseArrayLike \<Gamma> input cur itemParser bracket = Inr (v, n)"
    then obtain n0 where c0: "Consume input cur (fst bracket) = (n0, None)"
      by (auto simp: ps split: prod.splits option.splits)
    from Consume_advances [OF c0 ne] have b0: "cur < n0" "n0 \<le> length input" by simp_all
    obtain n1 e1 where c1: "Consume input n0 (snd bracket) = (n1, e1)"
      by (cases "Consume input n0 (snd bracket)")
    show "cur < n \<and> n \<le> length input"
    proof (cases e1)
      case None
      with r c0 c1 have "n = n1" by (simp add: ps)
      moreover from Consume_None [OF c1 [unfolded None]] SkipSpace_ge [OF b0(2)]
      have "n0 \<le> n1 \<and> n1 \<le> length input" by simp
      ultimately show ?thesis using b0 by simp
    next
      case (Some suberr)
      with r c0 c1 have l: "ParseArrayLike_loop \<Gamma> input n1 itemParser bracket [] = Inr (v, n)"
        by (simp add: ps)
      from Consume_Some [OF c1 [unfolded Some]] SkipSpace_ge [OF b0(2)]
      have "n0 \<le> n1" by simp
      moreover from "5.hyps"(2) [OF c0 [symmetric] refl c1 [symmetric] Some] l
      have "n1 < n \<and> n \<le> length input" by simp
      ultimately show ?thesis using b0 by simp
    qed
  qed
next
  case (6 \<Gamma> input nxt itemParser bracket arr)
  note ps = ParseArrayLike_loop.psimps [OF "6.hyps"(1)]
  let ?item = "case itemParser of
      ParseAny_func \<Rightarrow> ParseAny \<Gamma> input nxt
    | ParseKeyValue_func \<Rightarrow> ParseKeyValue \<Gamma> input nxt"
  show ?case
  proof (intro allI impI)
    fix v n
    assume r: "ParseArrayLike_loop \<Gamma> input nxt itemParser bracket arr = Inr (v, n)"
    then obtain subval n1 where it: "?item = Inr (subval, n1)"
      by (auto simp: ps split: sum.splits)
    have b1: "nxt < n1 \<and> n1 \<le> length input"
      using it "6.hyps"(2,3) by (cases itemParser) simp_all
    obtain n2 e2 where c2: "Consume input n1 '','' = (n2, e2)"
      by (cases "Consume input n1 '',''")
    show "nxt < n \<and> n \<le> length input"
    proof (cases e2)
      case None
      with r it c2 have l: "ParseArrayLike_loop \<Gamma> input n2 itemParser bracket (arr @ [subval])
          = Inr (v, n)"
        by (simp add: ps)
      from "6.hyps"(4) [OF it refl c2 [symmetric] None] l
      have "n2 < n \<and> n \<le> length input" by simp
      moreover from Consume_advances [OF c2 [unfolded None]] have "n1 < n2" by simp
      ultimately show ?thesis using b1 by simp
    next
      case (Some suberr)
      from Consume_Some [OF c2 [unfolded Some]] b1 SkipSpace_ge [of n1 input]
        SkipSpace_le [of input n1]
      have b2: "n1 \<le> n2" "n2 \<le> length input" by simp_all
      from r it c2 Some obtain c3: "Consume input n2 (snd bracket) = (n, None)"
        by (auto simp: ps split: prod.splits option.splits)
      from Consume_None [OF c3] SkipSpace_ge [OF b2(2)]
      have "n2 \<le> n \<and> n \<le> length input" by simp
      with b1 b2 show ?thesis by simp
    qed
  qed
qed

termination ParseAny
proof (relation "inv_image (less_than <*lex*> less_than)
    (\<lambda>x. case x of
       Inl (Inl (\<Gamma>, input, cur)) \<Rightarrow> (length input - cur, 3 :: nat)
     | Inl (Inr (Inl (\<Gamma>, input, cur))) \<Rightarrow> (length input - cur, 2)
     | Inl (Inr (Inr (\<Gamma>, input, cur))) \<Rightarrow> (length input - cur, 2)
     | Inr (Inl (\<Gamma>, input, cur)) \<Rightarrow> (length input - cur, 4)
     | Inr (Inr (Inl (\<Gamma>, input, cur, itemParser, bracket))) \<Rightarrow>
         (length input - cur, if fst bracket = [] then 6 else 1)
     | Inr (Inr (Inr (\<Gamma>, input, nxt, itemParser, bracket, arr))) \<Rightarrow>
         (length input - nxt, 5))", goal_cases)
  case 1
  show ?case by (intro wf_inv_image wf_lex_prod wf_less_than)
next
  case (2 \<Gamma> input cur x xa)
  then show ?case using SkipSpace_ge_if_lt [of input cur] by auto
next
  case (3 \<Gamma> input cur x xa)
  then show ?case using SkipSpace_ge_if_lt [of input cur] by auto
next
  case (4 \<Gamma> input cur)
  show ?case by simp
next
  case (5 \<Gamma> input cur)
  show ?case by simp
next
  case (6 \<Gamma> input cur b x y xa ya)
  then have s: "ParseString input cur = Inr (x, y)" and c: "Consume input y '':'' = (xa, None)"
    by simp_all
  from ParseString_advances [OF s] Consume_advances [OF c] show ?case by auto
next
  case (7 \<Gamma> input cur itemParser bracket x y xa ya x2)
  then have c0: "Consume input cur (fst bracket) = (x, None)"
    and c1: "Consume input x (snd bracket) = (xa, Some x2)"
    by simp_all
  from Consume_None [OF c0] have x: "x = SkipSpace input cur + length (fst bracket)"
    "x \<le> length input" by simp_all
  from Consume_Some [OF c1] SkipSpace_ge [OF x(2)] SkipSpace_le [of input x]
  have xa: "x \<le> xa" "xa \<le> length input" by simp_all
  show ?case
  proof (cases "fst bracket = []")
    case True
    show ?thesis
    proof (cases "cur \<le> length input")
      case True
      with x xa SkipSpace_ge [OF True] \<open>fst bracket = []\<close> show ?thesis by auto
    next
      case False
      then have "SkipSpace input cur = length input" by (simp add: SkipSpace_beyond)
      with False x xa \<open>fst bracket = []\<close> show ?thesis by auto
    qed
  next
    case False
    with Consume_advances [OF c0 False] xa show ?thesis by auto
  qed
next
  case (8 \<Gamma> input nxt itemParser bracket arr)
  then show ?case by simp
next
  case (9 \<Gamma> input nxt itemParser bracket arr)
  then show ?case by simp
next
  case (10 \<Gamma> input nxt itemParser bracket arr b x y xa ya)
  then have c: "Consume input y '','' = (xa, None)" by simp
  have "nxt < y"
  proof (cases itemParser)
    case ParseAny_func
    with 10 have "ParseAny \<Gamma> input nxt = Inr (x, y)" by simp
    with Parse_partial_advances(1) [OF "10"(6) [OF ParseAny_func]] show ?thesis by simp
  next
    case ParseKeyValue_func
    with 10 have "ParseKeyValue \<Gamma> input nxt = Inr (x, y)" by simp
    with Parse_partial_advances(4) [OF "10"(5) [OF ParseKeyValue_func]] show ?thesis by simp
  qed
  with Consume_advances [OF c] show ?case by auto
qed

subsection \<open>Entry points\<close>

declare ParseAny.simps [simp del] ParseArray.simps [simp del] ParseMap.simps [simp del]
  ParseKeyValue.simps [simp del] ParseArrayLike.simps [simp del]
  ParseArrayLike_loop.simps [simp del]

text \<open>
  \<open>ParseRunes\<close> and \<open>Parse\<close> return \<open>(value, err)\<close>; a caller reads
  \<open>value\<close> only when \<open>err\<close> is \<open>nil\<close>.
\<close>

definition ParseRunes :: "env \<Rightarrow> rune list \<Rightarrow> error + JsonValue" where
  "ParseRunes \<Gamma> input =
     (case ParseAny \<Gamma> input 0 of
        Inl err \<Rightarrow> Inl err
      | Inr (val, next) \<Rightarrow>
          let next' = SkipSpace input next in
          if next' \<noteq> length input then Inl (ParseError next' NotTerminated)
          else Inr val)"

definition Parse :: "env \<Rightarrow> gostring \<Rightarrow> error + JsonValue" where
  "Parse \<Gamma> input =
     (case DecodeString input of
        Inl err \<Rightarrow> Inl err
      | Inr decoded \<Rightarrow> ParseRunes \<Gamma> decoded)"

section \<open>Properties of the decoder\<close>

lemma and_low_int: "(x::int) AND mask n = x mod 2 ^ n"
  by (simp add: take_bit_eq_mod flip: take_bit_eq_mask)

lemma uint_and_low:
  "uint ((b::byte) AND 0x3f) = uint b mod 64"
  "uint (b AND 0x1f) = uint b mod 32"
  "uint (b AND 0x0f) = uint b mod 16"
  "uint (b AND 0x07) = uint b mod 8"
  "uint (b AND 0xff) = uint b"
  using and_low_int [of "uint b" 6] and_low_int [of "uint b" 5] and_low_int [of "uint b" 4]
    and_low_int [of "uint b" 3] and_low_int [of "uint b" 8]  uint_lt2p [of b]
  by (simp_all add: uint_and mask_eq_exp_minus_1)

lemma push_or_mod: "push_bit n (x::int) OR (y mod 2 ^ n) = x * 2 ^ n + y mod 2 ^ n"
proof -
  have "push_bit n x AND take_bit n y = 0"
    by (rule bit_eqI) (auto simp: bit_simps)
  then have "push_bit n x + take_bit n y = push_bit n x OR take_bit n y"
    by (rule disjunctive_add_eq_or)
  then show ?thesis by (simp add: take_bit_eq_mod push_bit_eq_mult)
qed

lemma fold_step: "push_bit 6 (x::int) OR uint ((b::byte) AND 0x3f) = x * 64 + uint b mod 64"
  using push_or_mod [of 6 x "uint b"] by (simp add: uint_and_low)

lemma fold_following_arith:
  "fold_following buf cur 0 c = c"
  "fold_following buf cur (Suc 0) c = c * 64 + uint (buf ! (cur + 1)) mod 64"
  "fold_following buf cur 2 c =
     (c * 64 + uint (buf ! (cur + 1)) mod 64) * 64 + uint (buf ! (cur + 2)) mod 64"
  "fold_following buf cur 3 c =
     ((c * 64 + uint (buf ! (cur + 1)) mod 64) * 64 + uint (buf ! (cur + 2)) mod 64) * 64
       + uint (buf ! (cur + 3)) mod 64"
  by (simp_all add: fold_following_def numeral_2_eq_2 numeral_3_eq_3 add.commute fold_step)

lemma uint_byte_of_int: "0 \<le> k \<Longrightarrow> k < 256 \<Longrightarrow> uint (word_of_int k :: byte) = k"
  by (simp add: uint_word_of_int)


lemma ReadCode_len1:
  assumes "cur < length buf" "uint (buf ! cur) < 0x80"
  shows "ReadCode buf cur = Inr (uint (buf ! cur), cur + 1)"
  using assms
  by (simp add: ReadCode_def leading_switch_def word_less_alt fold_following_arith uint_and_low Let_def)

lemma ReadCode_len2:
  assumes "cur + 2 \<le> length buf" "0xc0 \<le> uint (buf ! cur)" "uint (buf ! cur) < 0xe0"
  shows "ReadCode buf cur =
    Inr (uint (buf ! cur) mod 32 * 64 + uint (buf ! (cur + 1)) mod 64, cur + 2)"
  using assms
  by (simp add: ReadCode_def leading_switch_def word_less_alt fold_following_arith uint_and_low Let_def)

lemma ReadCode_len3:
  assumes "cur + 3 \<le> length buf" "0xe0 \<le> uint (buf ! cur)" "uint (buf ! cur) < 0xf0"
  shows "ReadCode buf cur =
    Inr ((uint (buf ! cur) mod 16 * 64 + uint (buf ! (cur + 1)) mod 64) * 64
          + uint (buf ! (cur + 2)) mod 64, cur + 3)"
  using assms
  by (simp add: ReadCode_def leading_switch_def word_less_alt fold_following_arith uint_and_low Let_def)

lemma ReadCode_len4:
  assumes "cur + 4 \<le> length buf" "0xf0 \<le> uint (buf ! cur)" "uint (buf ! cur) < 0xf8"
  shows "ReadCode buf cur =
    Inr (((uint (buf ! cur) mod 8 * 64 + uint (buf ! (cur + 1)) mod 64) * 64
          + uint (buf ! (cur + 2)) mod 64) * 64 + uint (buf ! (cur + 3)) mod 64, cur + 4)"
  using assms
  by (simp add: ReadCode_def leading_switch_def word_less_alt fold_following_arith uint_and_low Let_def)

lemma strip_hi: "0 \<le> x \<Longrightarrow> x < m \<Longrightarrow> (k * m + x) mod m = (x::int)"
  by simp

lemma utf8_arith2: assumes "128 \<le> (c::int)" "c < 2048"
  shows "(192 + c div 64) mod 32 * 64 + (128 + c mod 64) mod 64 = c"
proof -
  have q: "0 \<le> c div 64" "c div 64 < 32" using assms by simp_all
  have "(192 + c div 64) mod 32 = c div 64"
    using strip_hi [of "c div 64" 32 6] q by simp
  moreover have "(128 + c mod 64) mod 64 = c mod 64"
    using strip_hi [of "c mod 64" 64 2] by simp
  ultimately show ?thesis by simp
qed

lemma utf8_arith3: assumes "0x800 \<le> (c::int)" "c < 0x10000"
  shows "((224 + c div 4096) mod 16 * 64 + (128 + c div 64 mod 64) mod 64) * 64 + (128 + c mod 64) mod 64 = c"
proof -
  have q: "0 \<le> c div 4096" "c div 4096 < 16" using assms by simp_all
  have 1: "(224 + c div 4096) mod 16 = c div 4096"
    using strip_hi [of "c div 4096" 16 14] q by simp
  have 2: "(128 + c div 64 mod 64) mod 64 = c div 64 mod 64"
    using strip_hi [of "c div 64 mod 64" 64 2] by simp
  have 3: "(128 + c mod 64) mod 64 = c mod 64"
    using strip_hi [of "c mod 64" 64 2] by simp
  have 4: "c div 4096 = c div 64 div 64" by (simp add: div_mult2_eq)
  have "(c div 64 div 64 * 64 + c div 64 mod 64) * 64 + c mod 64 = c"
    by simp
  then show ?thesis unfolding 1 2 3 unfolding 4 .
qed

lemma utf8_arith4: assumes "0x10000 \<le> (c::int)" "c \<le> 0x10FFFF"
  shows "(((240 + c div 262144) mod 8 * 64 + (128 + c div 4096 mod 64) mod 64) * 64 + (128 + c div 64 mod 64) mod 64) * 64 + (128 + c mod 64) mod 64 = c"
proof -
  have q: "0 \<le> c div 262144" "c div 262144 < 8" using assms by simp_all
  have 1: "(240 + c div 262144) mod 8 = c div 262144"
    using strip_hi [of "c div 262144" 8 30] q by simp
  have 2: "(128 + c div 4096 mod 64) mod 64 = c div 4096 mod 64"
    using strip_hi [of "c div 4096 mod 64" 64 2] by simp
  have 5: "(128 + c div 64 mod 64) mod 64 = c div 64 mod 64"
    using strip_hi [of "c div 64 mod 64" 64 2] by simp
  have 3: "(128 + c mod 64) mod 64 = c mod 64"
    using strip_hi [of "c mod 64" 64 2] by simp
  have 4: "c div 4096 = c div 64 div 64" "c div 262144 = c div 64 div 64 div 64" by (simp_all add: div_mult2_eq)
  have "((c div 64 div 64 div 64 * 64 + c div 64 div 64 mod 64) * 64 + c div 64 mod 64) * 64 + c mod 64 = c"
    by simp
  then show ?thesis unfolding 1 2 5 3 unfolding 4 .
qed
lemma nth_after_prefix:
  "(pre @ b0 # bs) ! length pre = b0"
  "(pre @ b0 # b1 # bs) ! Suc (length pre) = b1"
  "(pre @ b0 # b1 # b2 # bs) ! Suc (Suc (length pre)) = b2"
  "(pre @ b0 # b1 # b2 # b3 # bs) ! (length pre + 3) = b3"
  by (simp_all add: nth_append numeral_3_eq_3)

text \<open>
  The runes that \<open>utf8_encode\<close> encodes as themselves are the Unicode scalar values;
  \<open>scalar r\<close> is what a rune becomes when it is encoded.
\<close>

definition is_scalar :: "rune \<Rightarrow> bool" where
  "is_scalar r = (0 \<le> r \<and> r \<le> 0x10FFFF \<and> (r < 0xD800 \<or> 0xDFFF < r))"

definition scalar :: "rune \<Rightarrow> rune" where
  "scalar r = (if is_scalar r then r else 0xFFFD)"

lemma ReadCode_encode_scalar:
  assumes "0 \<le> c" "c \<le> 0x10FFFF" "c < 0xD800 \<or> 0xDFFF < c"
  shows "ReadCode (pre @ utf8_encode c @ rest) (length pre)
           = Inr (c, length pre + length (utf8_encode c))"
proof -
  consider "c < 0x80" | "0x80 \<le> c" "c < 0x800" | "0x800 \<le> c" "c < 0x10000" | "0x10000 \<le> c"
    by linarith
  then show ?thesis
  proof cases
    case 1
    define b0 :: byte where "b0 = word_of_int c"
    have u: "uint b0 = c" unfolding b0_def using assms 1 by (intro uint_byte_of_int) auto
    have e: "utf8_encode c = [b0]" using 1 assms(1) by (simp add: utf8_encode_def b0_def)
    show ?thesis using 1 u
      by (simp add: e ReadCode_len1 nth_after_prefix)
  next
    case 2
    define b0 :: byte where "b0 = word_of_int (0xC0 + c div 0x40)"
    define b1 :: byte where "b1 = word_of_int (0x80 + c mod 0x40)"
    have u: "uint b0 = 0xC0 + c div 0x40" "uint b1 = 0x80 + c mod 0x40"
      unfolding b0_def b1_def using 2 by (intro uint_byte_of_int; simp)+
    have e: "utf8_encode c = [b0, b1]" using 2 by (simp add: utf8_encode_def b0_def b1_def)
    have q: "0 \<le> c div 0x40" "c div 0x40 < 32" using 2 by simp_all
    have ld: "0xc0 \<le> uint ((pre @ b0 # b1 # rest) ! length pre)"
      "uint ((pre @ b0 # b1 # rest) ! length pre) < 0xe0"
      using q by (simp_all add: nth_after_prefix u(1))
    have "ReadCode (pre @ b0 # b1 # rest) (length pre) =
       Inr (uint b0 mod 32 * 64 + uint b1 mod 64, length pre + 2)"
      using ReadCode_len2 [OF _ ld] by (simp add: nth_after_prefix)
    moreover have "uint b0 mod 32 * 64 + uint b1 mod 64 = c"
      unfolding u using 2 by (rule utf8_arith2)
    ultimately show ?thesis by (simp add: e)
  next
    case 3
    define b0 :: byte where "b0 = word_of_int (0xE0 + c div 0x1000)"
    define b1 :: byte where "b1 = word_of_int (0x80 + c div 0x40 mod 0x40)"
    define b2 :: byte where "b2 = word_of_int (0x80 + c mod 0x40)"
    have u: "uint b0 = 0xE0 + c div 0x1000" "uint b1 = 0x80 + c div 0x40 mod 0x40"
       "uint b2 = 0x80 + c mod 0x40"
      unfolding b0_def b1_def b2_def using 3 by (intro uint_byte_of_int; simp)+
    have e: "utf8_encode c = [b0, b1, b2]" using 3 assms(3)
      by (auto simp add: utf8_encode_def b0_def b1_def b2_def)
    have q: "0 \<le> c div 0x1000" "c div 0x1000 < 16" using 3 by simp_all
    have ld: "0xe0 \<le> uint ((pre @ b0 # b1 # b2 # rest) ! length pre)"
      "uint ((pre @ b0 # b1 # b2 # rest) ! length pre) < 0xf0"
      using q by (simp_all add: nth_after_prefix u(1))
    have "ReadCode (pre @ b0 # b1 # b2 # rest) (length pre) =
       Inr ((uint b0 mod 16 * 64 + uint b1 mod 64) * 64 + uint b2 mod 64, length pre + 3)"
      using ReadCode_len3 [OF _ ld] by (simp add: nth_after_prefix)
    moreover have "(uint b0 mod 16 * 64 + uint b1 mod 64) * 64 + uint b2 mod 64 = c"
      unfolding u using 3 by (rule utf8_arith3)
    ultimately show ?thesis by (simp add: e)
  next
    case 4
    have q4: "0 \<le> c div 0x40000" "c div 0x40000 < 8" using 4 assms by simp_all
    define b0 :: byte where "b0 = word_of_int (0xF0 + c div 0x40000)"
    define b1 :: byte where "b1 = word_of_int (0x80 + c div 0x1000 mod 0x40)"
    define b2 :: byte where "b2 = word_of_int (0x80 + c div 0x40 mod 0x40)"
    define b3 :: byte where "b3 = word_of_int (0x80 + c mod 0x40)"
    have u: "uint b0 = 0xF0 + c div 0x40000" "uint b1 = 0x80 + c div 0x1000 mod 0x40"
       "uint b2 = 0x80 + c div 0x40 mod 0x40" "uint b3 = 0x80 + c mod 0x40"
      unfolding b0_def b1_def b2_def b3_def using q4 by (intro uint_byte_of_int; simp)+
    have e: "utf8_encode c = [b0, b1, b2, b3]" using 4 assms(2)
      by (simp add: utf8_encode_def b0_def b1_def b2_def b3_def)
    have q: "0 \<le> c div 0x40000" "c div 0x40000 < 8" using 4 assms by simp_all
    have ld: "0xf0 \<le> uint ((pre @ b0 # b1 # b2 # b3 # rest) ! length pre)"
      "uint ((pre @ b0 # b1 # b2 # b3 # rest) ! length pre) < 0xf8"
      using q by (simp_all add: nth_after_prefix u(1))
    have "ReadCode (pre @ b0 # b1 # b2 # b3 # rest) (length pre) =
       Inr (((uint b0 mod 8 * 64 + uint b1 mod 64) * 64 + uint b2 mod 64) * 64
             + uint b3 mod 64, length pre + 4)"
      using ReadCode_len4 [OF _ ld] by (simp add: nth_after_prefix)
    moreover have "((uint b0 mod 8 * 64 + uint b1 mod 64) * 64 + uint b2 mod 64) * 64
             + uint b3 mod 64 = c"
      unfolding u using 4 assms(2) by (rule utf8_arith4)
    ultimately show ?thesis by (simp add: e)
  qed
qed

lemma utf8_encode_scalar: "utf8_encode (scalar c) = utf8_encode c"
  by (simp add: scalar_def is_scalar_def utf8_encode_def)

lemma is_scalar_scalar: "is_scalar (scalar c)"
  by (simp add: scalar_def is_scalar_def)

lemma ReadCode_encode:
  "ReadCode (pre @ utf8_encode c @ rest) (length pre)
     = Inr (scalar c, length pre + length (utf8_encode c))"
proof -
  have s: "0 \<le> scalar c" "scalar c \<le> 0x10FFFF" "scalar c < 0xD800 \<or> 0xDFFF < scalar c"
    using is_scalar_scalar [of c] by (simp_all add: is_scalar_def)
  show ?thesis
    using ReadCode_encode_scalar [OF s, of pre rest] by (simp only: utf8_encode_scalar)
qed

lemma Decode_loop_encode:
  "Decode_loop (pre @ concat (map utf8_encode cs)) (length pre) out = Inr (out @ map scalar cs)"
proof (induction cs arbitrary: pre out)
  case Nil
  show ?case by (simp add: Decode_loop.simps)
next
  case (Cons c cs)
  have len: "0 < length (utf8_encode c)" by (simp add: utf8_encode_def)
  have rc: "ReadCode (pre @ utf8_encode c @ concat (map utf8_encode cs)) (length pre)
              = Inr (scalar c, length pre + length (utf8_encode c))"
    by (rule ReadCode_encode)
  have "Decode_loop (pre @ concat (map utf8_encode (c # cs))) (length pre) out
          = Decode_loop ((pre @ utf8_encode c) @ concat (map utf8_encode cs))
              (length (pre @ utf8_encode c)) (out @ [scalar c])"
    using len rc by (subst Decode_loop.simps) simp
  also have "\<dots> = Inr ((out @ [scalar c]) @ map scalar cs)"
    by (rule Cons.IH)
  finally show ?case by simp
qed

lemma Decode_encode: "Decode (concat (map utf8_encode cs)) = Inr (map scalar cs)"
  using Decode_loop_encode [of "[]" cs "[]"] by (simp add: Decode_def)

lemma map_scalar_id: "map scalar cs = cs \<longleftrightarrow> (\<forall>c\<in>set cs. is_scalar c)"
proof (induction cs)
  case Nil
  show ?case by simp
next
  case (Cons c cs)
  have "scalar c = c \<longleftrightarrow> is_scalar c"
    by (auto simp add: scalar_def is_scalar_def)
  then show ?case using Cons.IH by simp
qed

text \<open>
  Claim C1, as the source has it.  For every sequence of Unicode scalar values, that is
  of code points in \<open>[0, 0x10FFFF]\<close> outside the surrogate range
  \<open>[0xD800, 0xDFFF]\<close>, encoding the sequence with the UTF-8 encoder and decoding the
  bytes with \<open>Decode\<close> gives back exactly the sequence, with no error.  For an
  arbitrary sequence of runes, \<open>Decode\<close> of the encoding succeeds with every rune that
  is no scalar value replaced by \<open>U+FFFD\<close>; so the round trip gives back the sequence
  exactly when it holds scalar values only, and \<open>DecodeString\<close> of a string converted
  from runes behaves the same.
\<close>

theorem Decode_roundtrip_scalar_values:
  "((\<forall>c\<in>set cs. 0 \<le> c \<and> c \<le> 0x10FFFF \<and> (c < 0xD800 \<or> 0xDFFF < c)) \<longrightarrow>
       Decode (concat (map utf8_encode cs)) = Inr cs) \<and>
   Decode (concat (map utf8_encode cs)) = Inr (map scalar cs) \<and>
   (Decode (concat (map utf8_encode cs)) = Inr cs \<longleftrightarrow> (\<forall>c\<in>set cs. is_scalar c)) \<and>
   DecodeString (string_of_runes cs) = Inr (map scalar cs)"
proof (intro conjI impI)
  assume "\<forall>c\<in>set cs. 0 \<le> c \<and> c \<le> 0x10FFFF \<and> (c < 0xD800 \<or> 0xDFFF < c)"
  then have "\<forall>c\<in>set cs. is_scalar c" by (simp add: is_scalar_def)
  then have "map scalar cs = cs" by (simp only: map_scalar_id)
  then show "Decode (concat (map utf8_encode cs)) = Inr cs" by (simp add: Decode_encode)
next
  show "Decode (concat (map utf8_encode cs)) = Inr (map scalar cs)" by (rule Decode_encode)
next
  show "Decode (concat (map utf8_encode cs)) = Inr cs \<longleftrightarrow> (\<forall>c\<in>set cs. is_scalar c)"
    by (simp add: Decode_encode map_scalar_id)
next
  show "DecodeString (string_of_runes cs) = Inr (map scalar cs)"
    by (simp add: DecodeString_def string_of_runes_def Decode_encode)
qed

theorem Decode_roundtrip_scalar_values_witness:
  "concat (map utf8_encode [0x61, 0xE9, 0x554A, 0xD7FF, 0xE000, 0x10FFFF])
     = [0x61, 0xC3, 0xA9, 0xE5, 0x95, 0x8A, 0xED, 0x9F, 0xBF, 0xEE, 0x80, 0x80,
        0xF4, 0x8F, 0xBF, 0xBF] \<and>
   Decode [0x61, 0xC3, 0xA9, 0xE5, 0x95, 0x8A, 0xED, 0x9F, 0xBF, 0xEE, 0x80, 0x80,
        0xF4, 0x8F, 0xBF, 0xBF]
     = Inr [0x61, 0xE9, 0x554A, 0xD7FF, 0xE000, 0x10FFFF]"
proof -
  have h: "\<forall>c\<in>set [0x61, 0xE9, 0x554A, 0xD7FF, 0xE000, 0x10FFFF :: int].
             0 \<le> c \<and> c \<le> 0x10FFFF \<and> (c < 0xD800 \<or> 0xDFFF < c)"
    by simp
  have e: "concat (map utf8_encode [0x61, 0xE9, 0x554A, 0xD7FF, 0xE000, 0x10FFFF])
     = [0x61, 0xC3, 0xA9, 0xE5, 0x95, 0x8A, 0xED, 0x9F, 0xBF, 0xEE, 0x80, 0x80,
        0xF4, 0x8F, 0xBF, 0xBF]"
    by (simp add: utf8_encode_def)
  have d: "Decode (concat (map utf8_encode [0x61, 0xE9, 0x554A, 0xD7FF, 0xE000, 0x10FFFF]))
     = Inr [0x61, 0xE9, 0x554A, 0xD7FF, 0xE000, 0x10FFFF]"
    by (rule Decode_roundtrip_scalar_values
          [of "[0x61, 0xE9, 0x554A, 0xD7FF, 0xE000, 0x10FFFF]", THEN conjunct1, THEN mp, OF h])
  show ?thesis using e d by simp
qed

text \<open>
  The surrogate half \<open>0xD800\<close> lies in \<open>[0, 0x10FFFF]\<close>; its encoding is that of
  \<open>U+FFFD\<close>, and \<open>Decode\<close> gives back \<open>0xFFFD\<close>, not \<open>0xD800\<close>.
\<close>

theorem Decode_roundtrip_surrogate:
  "(0::int) \<le> 0xD800 \<and> (0xD800::int) \<le> 0x10FFFF \<and>
   concat (map utf8_encode [0xD800]) = [0xEF, 0xBF, 0xBD] \<and>
   Decode (concat (map utf8_encode [0xD800])) = Inr [0xFFFD] \<and>
   Decode (concat (map utf8_encode [0xD800])) \<noteq> Inr [0xD800]"
proof -
  have d: "Decode (concat (map utf8_encode [0xD800])) = Inr (map scalar [0xD800])"
    by (rule Decode_encode)
  have r: "scalar 0xD800 = 0xFFFD" by (simp add: scalar_def is_scalar_def)
  have e: "utf8_encode 0xD800 = [0xEF, 0xBF, 0xBD]" by (simp add: utf8_encode_def)
  show ?thesis unfolding d using r e by simp
qed

text \<open>
  The sequence length that a leading byte announces by its high-bit pattern:
  \<open>0xxxxxxx\<close> one byte, \<open>110xxxxx\<close> two, \<open>1110xxxx\<close> three,
  \<open>11110xxx\<close> four; \<open>0\<close> for a byte that is no valid leader
  (\<open>10xxxxxx\<close> and \<open>11111xxx\<close>).  The top \<open>k\<close> bits of a byte
  \<open>b\<close> are \<open>drop_bit (8 - k) b\<close>.
\<close>

definition seq_len :: "byte \<Rightarrow> nat" where
  "seq_len b =
     (if drop_bit 7 b = 0b0 then 1
      else if drop_bit 5 b = 0b110 then 2
      else if drop_bit 4 b = 0b1110 then 3
      else if drop_bit 3 b = 0b11110 then 4
      else 0)"

lemma byte_prefix_ranges:
  fixes b :: byte
  shows "drop_bit 7 b = 0 \<longleftrightarrow> unat b < 0x80"
    and "drop_bit 6 b = 2 \<longleftrightarrow> 0x80 \<le> unat b \<and> unat b < 0xc0"
    and "drop_bit 5 b = 6 \<longleftrightarrow> 0xc0 \<le> unat b \<and> unat b < 0xe0"
    and "drop_bit 4 b = 14 \<longleftrightarrow> 0xe0 \<le> unat b \<and> unat b < 0xf0"
    and "drop_bit 3 b = 30 \<longleftrightarrow> 0xf0 \<le> unat b \<and> unat b < 0xf8"
    and "drop_bit 3 b = 31 \<longleftrightarrow> 0xf8 \<le> unat b"
  using unsigned_less [of b, where ?'a = nat]
  by (simp_all add: word_eq_iff_unsigned [where ?'a = nat] unat_drop_bit_eq drop_bit_eq_div unat_div)
     arith+

lemma leading_switch_unat:
  "leading_switch cur b =
     (if unat b < 0x80 then Inr (cur + 1, 0xff)
      else if unat b < 0xc0 then Inl (DecodingError cur b UnexpectedLeadingChar)
      else if unat b < 0xe0 then Inr (cur + 2, 0x1f)
      else if unat b < 0xf0 then Inr (cur + 3, 0x0f)
      else if unat b < 0xf8 then Inr (cur + 4, 0x07)
      else Inl (DecodingError cur b BadLeadingChar))"
  by (simp add: leading_switch_def word_less_nat_alt)

lemma seq_len_unat:
  "seq_len b =
     (if unat b < 0x80 then 1
      else if unat b < 0xc0 then 0
      else if unat b < 0xe0 then 2
      else if unat b < 0xf0 then 3
      else if unat b < 0xf8 then 4
      else 0)"
  by (simp add: seq_len_def byte_prefix_ranges)

text \<open>
  Claim C5.  At an in-bounds position, \<open>ReadCode\<close> fails with
  "unexpected leading char" exactly when the byte there has the pattern
  \<open>10xxxxxx\<close>, with "bad leading char" exactly when it has the pattern
  \<open>11111xxx\<close>, and with "buf not enough" exactly when the byte is a valid leader
  whose sequence length exceeds the bytes remaining; that error reports the required
  length and the remaining count, and every error carries the position and the byte
  found there.  A \<open>0xE0\<close> leader with one following byte reports 3 against 2.
\<close>

theorem ReadCode_error_classes:
  assumes "cur < length buf"
  shows "((\<exists>p ch. ReadCode buf cur = Inl (DecodingError p ch UnexpectedLeadingChar))
            \<longleftrightarrow> drop_bit 6 (buf ! cur) = 0b10) \<and>
         ((\<exists>p ch. ReadCode buf cur = Inl (DecodingError p ch BadLeadingChar))
            \<longleftrightarrow> drop_bit 3 (buf ! cur) = 0b11111) \<and>
         ((\<exists>p ch req remain. ReadCode buf cur = Inl (DecodingError p ch (BufNotEnough req remain)))
            \<longleftrightarrow> seq_len (buf ! cur) > length buf - cur) \<and>
         (\<forall>p ch req remain. ReadCode buf cur = Inl (DecodingError p ch (BufNotEnough req remain))
            \<longrightarrow> req = seq_len (buf ! cur) \<and> remain = length buf - cur) \<and>
         (\<forall>p ch m. ReadCode buf cur = Inl (DecodingError p ch m)
            \<longrightarrow> p = cur \<and> ch = buf ! cur)"
  using assms
  by (auto simp: ReadCode_def leading_switch_unat seq_len_unat byte_prefix_ranges Let_def
      split: if_splits)


theorem ReadCode_error_classes_witness:
  "0 < length [0xE0, 0x80 :: byte] \<and>
   (\<exists>p ch req remain.
      ReadCode [0xE0, 0x80] 0 = Inl (DecodingError p ch (BufNotEnough req remain))) \<and>
   ReadCode [0xE0, 0x80] 0 = Inl (DecodingError 0 0xE0 (BufNotEnough 3 2)) \<and>
   seq_len ([0xE0, 0x80] ! 0) = 3 \<and>
   ReadCode [0x80] 0 = Inl (DecodingError 0 0x80 UnexpectedLeadingChar) \<and>
   ReadCode [0x61, 0xFF] 1 = Inl (DecodingError 1 0xFF BadLeadingChar)"
proof -
  have h: "0 < length [0xE0, 0x80 :: byte]" by simp
  have sl: "seq_len ([0xE0, 0x80] ! 0) = 3"
    by (simp add: seq_len_def drop_bit_eq_div)
  have gt: "length [0xE0, 0x80 :: byte] - 0 < seq_len ([0xE0, 0x80] ! 0)"
    unfolding sl by simp
  have a: "\<exists>p ch req remain.
      ReadCode [0xE0, 0x80] 0 = Inl (DecodingError p ch (BufNotEnough req remain))"
    using ReadCode_error_classes [OF h, THEN conjunct2, THEN conjunct2, THEN conjunct1] gt
    by (rule iffD2)
  have b: "ReadCode [0xE0, 0x80] 0 = Inl (DecodingError 0 0xE0 (BufNotEnough 3 2))"
    by (simp add: ReadCode_def leading_switch_def)
  have c: "ReadCode [0x80] 0 = Inl (DecodingError 0 0x80 UnexpectedLeadingChar)"
    by (simp add: ReadCode_def leading_switch_def)
  have d: "ReadCode [0x61, 0xFF] 1 = Inl (DecodingError 1 0xFF BadLeadingChar)"
    by (simp add: ReadCode_def leading_switch_def)
  show ?thesis using h a b sl c d by (intro conjI)
qed

lemma fold_following_bits:
  "fold_following buf cur (Suc 0) c = push_bit 6 c OR uint (buf ! (cur + 1) AND 0x3f)"
  "fold_following buf cur 2 c =
     push_bit 6 (push_bit 6 c OR uint (buf ! (cur + 1) AND 0x3f))
       OR uint (buf ! (cur + 2) AND 0x3f)"
  "fold_following buf cur 3 c =
     push_bit 6 (push_bit 6 (push_bit 6 c OR uint (buf ! (cur + 1) AND 0x3f))
       OR uint (buf ! (cur + 2) AND 0x3f)) OR uint (buf ! (cur + 3) AND 0x3f)"
  by (simp_all add: fold_following_def numeral_2_eq_2 numeral_3_eq_3 add.commute)

text \<open>
  Claim C10.  \<open>ReadCode\<close> never checks that the bytes after a multi-byte leader
  carry the continuation prefix \<open>10xxxxxx\<close>: when the leader is valid and enough
  bytes remain, decoding succeeds and the code point is built from the leader's payload
  bits and the low six bits of each following byte, whatever their two high bits are.
  So \<open>Decode\<close> of the bytes \<open>0xC3 0x41\<close> is the single code point
  \<open>0xC1\<close>, not an error.
\<close>

theorem ReadCode_ignores_continuation_prefix:
  assumes "cur < length buf"
  shows "(drop_bit 5 (buf ! cur) = 0b110 \<and> cur + 2 \<le> length buf \<longrightarrow>
            ReadCode buf cur =
              Inr (push_bit 6 (uint (buf ! cur AND 0x1f)) OR uint (buf ! (cur + 1) AND 0x3f),
                   cur + 2)) \<and>
         (drop_bit 4 (buf ! cur) = 0b1110 \<and> cur + 3 \<le> length buf \<longrightarrow>
            ReadCode buf cur =
              Inr (push_bit 6 (push_bit 6 (uint (buf ! cur AND 0x0f))
                      OR uint (buf ! (cur + 1) AND 0x3f))
                    OR uint (buf ! (cur + 2) AND 0x3f),
                   cur + 3)) \<and>
         (drop_bit 3 (buf ! cur) = 0b11110 \<and> cur + 4 \<le> length buf \<longrightarrow>
            ReadCode buf cur =
              Inr (push_bit 6 (push_bit 6 (push_bit 6 (uint (buf ! cur AND 0x07))
                        OR uint (buf ! (cur + 1) AND 0x3f))
                      OR uint (buf ! (cur + 2) AND 0x3f))
                    OR uint (buf ! (cur + 3) AND 0x3f),
                   cur + 4)) \<and>
         Decode [0xC3, 0x41] = Inr [0xC1]"
proof -
  have ex: "Decode [0xC3, 0x41] = Inr [0xC1]"
    by (simp add: Decode_def Decode_loop.simps ReadCode_def leading_switch_def
        fold_following_def)
  show ?thesis
    using assms ex
    by (auto simp: ReadCode_def leading_switch_unat byte_prefix_ranges Let_def
        fold_following_bits)
qed

theorem ReadCode_ignores_continuation_prefix_witness:
  "0 < length [0xC3, 0x41 :: byte] \<and>
   drop_bit 5 ([0xC3, 0x41 :: byte] ! 0) = 0b110 \<and> 0 + 2 \<le> length [0xC3, 0x41 :: byte] \<and>
   drop_bit 6 ([0xC3, 0x41 :: byte] ! (0 + 1)) \<noteq> 0b10 \<and>
   ReadCode [0xC3, 0x41] 0 =
     Inr (push_bit 6 (uint ([0xC3, 0x41 :: byte] ! 0 AND 0x1f))
            OR uint ([0xC3, 0x41 :: byte] ! (0 + 1) AND 0x3f), 0 + 2) \<and>
   push_bit 6 (uint ([0xC3, 0x41 :: byte] ! 0 AND 0x1f))
            OR uint ([0xC3, 0x41 :: byte] ! (0 + 1) AND 0x3f) = 0xC1"
proof -
  have h: "0 < length [0xC3, 0x41 :: byte]" by simp
  have p: "drop_bit 5 ([0xC3, 0x41 :: byte] ! 0) = 0b110 \<and> 0 + 2 \<le> length [0xC3, 0x41 :: byte]"
    by (simp add: drop_bit_eq_div)
  have q: "drop_bit 6 ([0xC3, 0x41 :: byte] ! (0 + 1)) \<noteq> 0b10"
    by (simp add: drop_bit_eq_div)
  have r: "ReadCode [0xC3, 0x41] 0 =
     Inr (push_bit 6 (uint ([0xC3, 0x41 :: byte] ! 0 AND 0x1f))
            OR uint ([0xC3, 0x41 :: byte] ! (0 + 1) AND 0x3f), 0 + 2)"
    using ReadCode_ignores_continuation_prefix [OF h, THEN conjunct1] p by (rule mp)
  have v: "push_bit 6 (uint ([0xC3, 0x41 :: byte] ! 0 AND 0x1f))
            OR uint ([0xC3, 0x41 :: byte] ! (0 + 1) AND 0x3f) = 0xC1"
    by simp
  show ?thesis using h p q r v by (intro conjI) simp_all
qed

section \<open>Properties of the parser\<close>

subsection \<open>Every production advances\<close>

lemma Parse_dom:
  "ParseAny_ParseArray_ParseMap_ParseKeyValue_ParseArrayLike_ParseArrayLike_loop_dom
     (Inl (Inl (\<Gamma>, input, cur)))"
  "ParseAny_ParseArray_ParseMap_ParseKeyValue_ParseArrayLike_ParseArrayLike_loop_dom
     (Inl (Inr (Inl (\<Gamma>, input, cur))))"
  "ParseAny_ParseArray_ParseMap_ParseKeyValue_ParseArrayLike_ParseArrayLike_loop_dom
     (Inl (Inr (Inr (\<Gamma>, input, cur))))"
  "ParseAny_ParseArray_ParseMap_ParseKeyValue_ParseArrayLike_ParseArrayLike_loop_dom
     (Inr (Inl (\<Gamma>, input, cur)))"
  "ParseAny_ParseArray_ParseMap_ParseKeyValue_ParseArrayLike_ParseArrayLike_loop_dom
     (Inr (Inr (Inl (\<Gamma>, input, cur, itemParser, bracket))))"
  "ParseAny_ParseArray_ParseMap_ParseKeyValue_ParseArrayLike_ParseArrayLike_loop_dom
     (Inr (Inr (Inr (\<Gamma>, input, nxt, itemParser, bracket, arr))))"
proof (induct rule: ParseAny_ParseArray_ParseMap_ParseKeyValue_ParseArrayLike_ParseArrayLike_loop.induct)
  case (1 \<Gamma> input cur)
  show ?case
    by (rule ParseAny_ParseArray_ParseMap_ParseKeyValue_ParseArrayLike_ParseArrayLike_loop.domintros(1))
       (use "1" in auto)
next
  case (2 \<Gamma> input cur)
  show ?case
    by (rule ParseAny_ParseArray_ParseMap_ParseKeyValue_ParseArrayLike_ParseArrayLike_loop.domintros(2))
       (use "2" in auto)
next
  case (3 \<Gamma> input cur)
  show ?case
    by (rule ParseAny_ParseArray_ParseMap_ParseKeyValue_ParseArrayLike_ParseArrayLike_loop.domintros(3))
       (use "3" in auto)
next
  case (4 \<Gamma> input cur)
  show ?case
    by (rule ParseAny_ParseArray_ParseMap_ParseKeyValue_ParseArrayLike_ParseArrayLike_loop.domintros(4))
       (use "4" in auto)
next
  case (5 \<Gamma> input cur itemParser bracket)
  show ?case
    by (rule ParseAny_ParseArray_ParseMap_ParseKeyValue_ParseArrayLike_ParseArrayLike_loop.domintros(5))
       (use "5" in auto)
next
  case (6 \<Gamma> input nxt itemParser bracket arr)
  show ?case
    by (rule ParseAny_ParseArray_ParseMap_ParseKeyValue_ParseArrayLike_ParseArrayLike_loop.domintros(6))
       (use "6" in auto)
qed

lemma ParseAny_advances:
  "ParseAny \<Gamma> input cur = Inr (v, n) \<Longrightarrow> cur < n \<and> n \<le> length input"
  by (rule Parse_partial_advances(1) [OF Parse_dom(1), rule_format])

lemma ParseArray_advances:
  "ParseArray \<Gamma> input cur = Inr (v, n) \<Longrightarrow> cur < n \<and> n \<le> length input"
  by (rule Parse_partial_advances(2) [OF Parse_dom(2), rule_format])

lemma ParseMap_advances:
  "ParseMap \<Gamma> input cur = Inr (v, n) \<Longrightarrow> cur < n \<and> n \<le> length input"
  by (rule Parse_partial_advances(3) [OF Parse_dom(3), rule_format])

lemma ParseKeyValue_advances:
  "ParseKeyValue \<Gamma> input cur = Inr (v, n) \<Longrightarrow> cur < n \<and> n \<le> length input"
  by (rule Parse_partial_advances(4) [OF Parse_dom(4), rule_format])

lemma ParseArrayLike_advances:
  "fst bracket \<noteq> [] \<Longrightarrow> ParseArrayLike \<Gamma> input cur itemParser bracket = Inr (v, n) \<Longrightarrow>
     cur < n \<and> n \<le> length input"
  by (rule Parse_partial_advances(5) [OF Parse_dom(5), rule_format])

lemma ParseArrayLike_loop_advances:
  "ParseArrayLike_loop \<Gamma> input nxt itemParser bracket arr = Inr (v, n) \<Longrightarrow>
     nxt < n \<and> n \<le> length input"
  by (rule Parse_partial_advances(6) [OF Parse_dom(6), rule_format])

subsection \<open>The order of a range over a literal map\<close>

lemma SkipSpace_idem: "SkipSpace input (SkipSpace input i) = SkipSpace input i"
proof (induction input i rule: SkipSpace.induct)
  case (1 input i)
  show ?case
  proof (cases "i < length input")
    case False
    then show ?thesis by (simp add: SkipSpace_beyond)
  next
    case lt: True
    show ?thesis
    proof (cases "input ! i = 0x20 \<or> input ! i = 0x09 \<or> input ! i = 0x0A \<or> input ! i = 0x0D")
      case True
      with lt have "SkipSpace input i = SkipSpace input (i + 1)"
        by (subst SkipSpace.simps) simp
      with "1.IH" [OF lt True] show ?thesis by simp
    next
      case False
      with lt have "SkipSpace input i = i" by (subst SkipSpace.simps) simp
      then show ?thesis by simp
    qed
  qed
qed

lemma Consume_SkipSpace: "Consume input (SkipSpace input cur) tok = Consume input cur tok"
  by (simp add: Consume_def SkipSpace_idem)

lemma Consume_first_rune:
  "Consume input cur (c # cs) = (n, None) \<Longrightarrow> input ! SkipSpace input cur = of_char c"
  by (auto simp: Consume_def Let_def runes_of_literal_def split: if_splits option.splits)

lemma literal_loop_order:
  "literal_loop (literal_map ord) input cur 0 = literal_loop (literal_map TFN) input cur 0"
proof -
  obtain nt et where t: "Consume input cur ''true'' = (nt, et)"
    by (cases "Consume input cur ''true''")
  obtain nf ef where f: "Consume input cur ''false'' = (nf, ef)"
    by (cases "Consume input cur ''false''")
  obtain nn en where n: "Consume input cur ''null'' = (nn, en)"
    by (cases "Consume input cur ''null''")
  have pos: "et \<noteq> None \<Longrightarrow> nt = SkipSpace input cur" "ef \<noteq> None \<Longrightarrow> nf = SkipSpace input cur"
    "en \<noteq> None \<Longrightarrow> nn = SkipSpace input cur"
    using t f n Consume_Some by auto
  have ch: "et = None \<Longrightarrow> input ! SkipSpace input cur = 0x74"
    "ef = None \<Longrightarrow> input ! SkipSpace input cur = 0x66"
    "en = None \<Longrightarrow> input ! SkipSpace input cur = 0x6E"
    using t f n Consume_first_rune [of input cur] by auto
  show ?thesis
    using pos ch by (cases ord; cases et; cases ef; cases en) (simp_all add: t f n)
qed

lemma sign_loop_order:
  "sign_loop (sign_map ord) input nxt False = sign_loop (sign_map PlusMinus) input nxt False"
proof -
  obtain np ep where p: "Consume input nxt ''+'' = (np, ep)"
    by (cases "Consume input nxt ''+''")
  obtain nm em where m: "Consume input nxt ''-'' = (nm, em)"
    by (cases "Consume input nxt ''-''")
  have pos: "ep \<noteq> None \<Longrightarrow> np = SkipSpace input nxt" "em \<noteq> None \<Longrightarrow> nm = SkipSpace input nxt"
    using p m Consume_Some by auto
  have ch: "ep = None \<Longrightarrow> input ! SkipSpace input nxt = 0x2B"
    "em = None \<Longrightarrow> input ! SkipSpace input nxt = 0x2D"
    using p m Consume_first_rune [of input nxt] by auto
  show ?thesis
    using pos ch by (cases ord; cases ep; cases em) (simp_all add: p m Consume_SkipSpace)
qed

lemma ParseBoolNull_order:
  "ParseBoolNull \<Gamma> input cur = literal_loop (literal_map TFN) input cur 0"
  by (simp add: ParseBoolNull_def literal_loop_order)

lemma exp_part_env:
  "exp_part \<Gamma> input nxt isfloat = exp_part \<Gamma>' input nxt isfloat"
proof -
  have "sign_loop (sign_map (sign_range \<Gamma> (nxt + 1))) input (nxt + 1) False
      = sign_loop (sign_map (sign_range \<Gamma>' (nxt + 1))) input (nxt + 1) False"
    by (rule trans [OF sign_loop_order sign_loop_order [symmetric]])
  then show ?thesis by (simp only: exp_part_def)
qed

lemma ParseNum_env:
  assumes "Pow10 \<Gamma> = Pow10 \<Gamma>'"
  shows "ParseNum \<Gamma> input cur = ParseNum \<Gamma>' input cur"
  unfolding ParseNum_def assms exp_part_env [of \<Gamma> _ _ _ \<Gamma>'] ..

lemma Parse_env:
  "Pow10 \<Gamma> = p \<longrightarrow> ParseAny \<Gamma> input cur = ParseAny (\<Gamma>\<lparr>sign_range := s, literal_range := l\<rparr>) input cur"
  "Pow10 \<Gamma> = p \<longrightarrow> ParseArray \<Gamma> input cur = ParseArray (\<Gamma>\<lparr>sign_range := s, literal_range := l\<rparr>) input cur"
  "Pow10 \<Gamma> = p \<longrightarrow> ParseMap \<Gamma> input cur = ParseMap (\<Gamma>\<lparr>sign_range := s, literal_range := l\<rparr>) input cur"
  "Pow10 \<Gamma> = p \<longrightarrow> ParseKeyValue \<Gamma> input cur = ParseKeyValue (\<Gamma>\<lparr>sign_range := s, literal_range := l\<rparr>) input cur"
  "Pow10 \<Gamma> = p \<longrightarrow> ParseArrayLike \<Gamma> input cur itemParser bracket =
     ParseArrayLike (\<Gamma>\<lparr>sign_range := s, literal_range := l\<rparr>) input cur itemParser bracket"
  "Pow10 \<Gamma> = p \<longrightarrow> ParseArrayLike_loop \<Gamma> input nxt itemParser bracket arr =
     ParseArrayLike_loop (\<Gamma>\<lparr>sign_range := s, literal_range := l\<rparr>) input nxt itemParser bracket arr"
proof (induct \<Gamma> input cur and \<Gamma> input cur and \<Gamma> input cur and \<Gamma> input cur
    and \<Gamma> input cur itemParser bracket and \<Gamma> input nxt itemParser bracket arr
    rule: ParseAny_ParseArray_ParseMap_ParseKeyValue_ParseArrayLike_ParseArrayLike_loop.induct)
  case (1 \<Gamma> input cur)
  let ?\<Gamma>' = "\<Gamma>\<lparr>sign_range := s, literal_range := l\<rparr>"
  let ?nx = "SkipSpace input cur"
  have num: "ParseNum \<Gamma> input ?nx = ParseNum ?\<Gamma>' input ?nx"
    by (rule ParseNum_env) simp
  have lit: "ParseBoolNull \<Gamma> input ?nx = ParseBoolNull ?\<Gamma>' input ?nx"
    by (simp add: ParseBoolNull_order)
  show ?case
  proof
    assume p: "Pow10 \<Gamma> = p"
    show "ParseAny \<Gamma> input cur = ParseAny ?\<Gamma>' input cur"
    proof (cases "length input \<le> ?nx")
      case True
      then show ?thesis by (simp add: ParseAny.simps [of _ input cur])
    next
      case lt: False
      show ?thesis
      proof (cases "input ! ?nx = 0x5B")
        case True
        have "ParseAny \<Gamma>' input cur = ParseArray \<Gamma>' input ?nx" for \<Gamma>'
          using lt True by (simp add: ParseAny.simps [of \<Gamma>' input cur])
        with "1"(1) [OF refl lt refl True] p show ?thesis by simp
      next
        case n1: False
        show ?thesis
        proof (cases "input ! ?nx = 0x7B")
          case True
          have "ParseAny \<Gamma>' input cur = ParseMap \<Gamma>' input ?nx" for \<Gamma>'
            using lt n1 True by (simp add: ParseAny.simps [of \<Gamma>' input cur])
          with "1"(2) [OF refl lt refl n1 True] p show ?thesis by simp
        next
          case False
          with lt n1 num lit show ?thesis
            by (simp add: ParseAny.simps [of _ input cur] Let_def)
        qed
      qed
    qed
  qed
next
  case (2 \<Gamma> input cur)
  then show ?case by (simp add: ParseArray.simps)
next
  case (3 \<Gamma> input cur)
  then show ?case by (simp add: ParseMap.simps)
next
  case (4 \<Gamma> input cur)
  let ?\<Gamma>' = "\<Gamma>\<lparr>sign_range := s, literal_range := l\<rparr>"
  show ?case
  proof
    assume p: "Pow10 \<Gamma> = p"
    show "ParseKeyValue \<Gamma> input cur = ParseKeyValue ?\<Gamma>' input cur"
    proof (cases "ParseString input cur")
      case (Inl err)
      then show ?thesis by (simp add: ParseKeyValue.simps)
    next
      case (Inr r)
      obtain key n0 where r: "r = (key, n0)" by (cases r)
      obtain n1 e1 where c: "Consume input n0 '':'' = (n1, e1)"
        by (cases "Consume input n0 '':''")
      show ?thesis
      proof (cases e1)
        case None
        from "4" [OF Inr [unfolded r] refl c [symmetric] None] p
        have "ParseAny \<Gamma> input n1 = ParseAny ?\<Gamma>' input n1" by simp
        with Inr r c None show ?thesis by (simp add: ParseKeyValue.simps)
      next
        case (Some err)
        with Inr r c show ?thesis by (simp add: ParseKeyValue.simps)
      qed
    qed
  qed
next
  case (5 \<Gamma> input cur itemParser bracket)
  let ?\<Gamma>' = "\<Gamma>\<lparr>sign_range := s, literal_range := l\<rparr>"
  show ?case
  proof
    assume p: "Pow10 \<Gamma> = p"
    obtain n0 e0 where c0: "Consume input cur (fst bracket) = (n0, e0)"
      by (cases "Consume input cur (fst bracket)")
    obtain n1 e1 where c1: "Consume input n0 (snd bracket) = (n1, e1)"
      by (cases "Consume input n0 (snd bracket)")
    show "ParseArrayLike \<Gamma> input cur itemParser bracket
        = ParseArrayLike ?\<Gamma>' input cur itemParser bracket"
    proof (cases e0)
      case (Some err)
      with c0 show ?thesis by (simp add: ParseArrayLike.simps)
    next
      case n: None
      show ?thesis
      proof (cases e1)
        case None
        with c0 c1 n show ?thesis by (simp add: ParseArrayLike.simps)
      next
        case (Some suberr)
        from "5" [OF c0 [symmetric] n c1 [symmetric] Some] p
        have "ParseArrayLike_loop \<Gamma> input n1 itemParser bracket []
          = ParseArrayLike_loop ?\<Gamma>' input n1 itemParser bracket []" by simp
        with c0 c1 n Some show ?thesis by (simp add: ParseArrayLike.simps)
      qed
    qed
  qed
next
  case (6 \<Gamma> input nxt itemParser bracket arr)
  let ?\<Gamma>' = "\<Gamma>\<lparr>sign_range := s, literal_range := l\<rparr>"
  let ?item = "\<lambda>\<Gamma>. case itemParser of
      ParseAny_func \<Rightarrow> ParseAny \<Gamma> input nxt
    | ParseKeyValue_func \<Rightarrow> ParseKeyValue \<Gamma> input nxt"
  show ?case
  proof
    assume p: "Pow10 \<Gamma> = p"
    have it: "?item \<Gamma> = ?item ?\<Gamma>'"
      using "6"(1,2) p by (cases itemParser) simp_all
    show "ParseArrayLike_loop \<Gamma> input nxt itemParser bracket arr
        = ParseArrayLike_loop ?\<Gamma>' input nxt itemParser bracket arr"
    proof (cases "?item \<Gamma>")
      case (Inl err)
      have "ParseArrayLike_loop \<Gamma> input nxt itemParser bracket arr = Inl err"
        by (subst ParseArrayLike_loop.simps) (simp add: Inl)
      moreover have "ParseArrayLike_loop ?\<Gamma>' input nxt itemParser bracket arr = Inl err"
        by (subst ParseArrayLike_loop.simps) (simp add: Inl it [symmetric])
      ultimately show ?thesis by simp
    next
      case (Inr r)
      obtain subval n1 where r: "r = (subval, n1)" by (cases r)
      obtain n2 e2 where c2: "Consume input n1 '','' = (n2, e2)"
        by (cases "Consume input n1 '',''")
      note i1 = Inr [unfolded r]
      note i2 = i1 [unfolded it]
      show ?thesis
      proof (cases e2)
        case None
        from "6"(3) [OF i1 refl c2 [symmetric] None] p
        have ih: "ParseArrayLike_loop \<Gamma> input n2 itemParser bracket (arr @ [subval])
          = ParseArrayLike_loop ?\<Gamma>' input n2 itemParser bracket (arr @ [subval])" by simp
        have "ParseArrayLike_loop \<Gamma> input nxt itemParser bracket arr
          = ParseArrayLike_loop \<Gamma> input n2 itemParser bracket (arr @ [subval])"
          by (subst ParseArrayLike_loop.simps) (simp add: i1 c2 None)
        moreover have "ParseArrayLike_loop ?\<Gamma>' input nxt itemParser bracket arr
          = ParseArrayLike_loop ?\<Gamma>' input n2 itemParser bracket (arr @ [subval])"
          by (subst ParseArrayLike_loop.simps) (simp add: i2 c2 None)
        ultimately show ?thesis using ih by simp
      next
        case (Some suberr)
        have "ParseArrayLike_loop G input nxt itemParser bracket arr
          = (case Consume input n2 (snd bracket) of
               (next3, Some suberr') \<Rightarrow> Inl (ParseError next3 (ExpectCloseOrComma (snd bracket)))
             | (next3, None) \<Rightarrow> Inr (JArray (arr @ [subval]), next3))"
          if "?item G = Inr (subval, n1)" for G
          by (subst ParseArrayLike_loop.simps) (simp add: that c2 Some)
        from this [OF i1] this [OF i2] show ?thesis by simp
      qed
    qed
  qed
qed

lemma ParseRunes_env:
  "ParseRunes \<Gamma> input = ParseRunes (\<Gamma>\<lparr>sign_range := s, literal_range := l\<rparr>) input"
  using Parse_env(1) [where \<Gamma> = \<Gamma> and p = "Pow10 \<Gamma>" and input = input and cur = 0
      and s = s and l = l]
  by (simp add: ParseRunes_def)

lemma Parse_order:
  "Parse \<Gamma> input = Parse (\<Gamma>\<lparr>sign_range := s, literal_range := l\<rparr>) input"
  using ParseRunes_env [where \<Gamma> = \<Gamma> and s = s and l = l]
  by (simp add: Parse_def split: sum.splits)

lemma Consume_exclusive:
  assumes "Consume input cur (c # cs) = (n, None)" "Consume input cur (d # ds) = (n', None)"
  shows "c = d"
  using Consume_first_rune [OF assms(1)] Consume_first_rune [OF assms(2)]
  by simp

text \<open>
  Claim C7.  The result of parsing does not depend on the order in which a
  \<open>range\<close> visits the keys of the two literal maps.
\<close>

theorem range_order_irrelevant:
  "literal_loop (literal_map o1) input cur 0 = literal_loop (literal_map o2) input cur 0 \<and>
   sign_loop (sign_map s1) input nxt False = sign_loop (sign_map s2) input nxt False \<and>
   ParseBoolNull \<Gamma> input cur = ParseBoolNull (\<Gamma>\<lparr>literal_range := l\<rparr>) input cur \<and>
   ParseNum \<Gamma> input cur = ParseNum (\<Gamma>\<lparr>sign_range := s\<rparr>) input cur \<and>
   ParseRunes \<Gamma> input = ParseRunes (\<Gamma>\<lparr>sign_range := s, literal_range := l\<rparr>) input \<and>
   \<not> (snd (Consume input cur ''true'') = None \<and> snd (Consume input cur ''false'') = None) \<and>
   \<not> (snd (Consume input cur ''true'') = None \<and> snd (Consume input cur ''null'') = None) \<and>
   \<not> (snd (Consume input cur ''false'') = None \<and> snd (Consume input cur ''null'') = None) \<and>
   \<not> (snd (Consume input nxt ''+'') = None \<and> snd (Consume input nxt ''-'') = None)"
proof -
  have a: "literal_loop (literal_map o1) input cur 0 = literal_loop (literal_map o2) input cur 0"
    by (rule trans [OF literal_loop_order literal_loop_order [symmetric]])
  have b: "sign_loop (sign_map s1) input nxt False = sign_loop (sign_map s2) input nxt False"
    by (rule trans [OF sign_loop_order sign_loop_order [symmetric]])
  have c: "ParseBoolNull \<Gamma> input cur = ParseBoolNull (\<Gamma>\<lparr>literal_range := l\<rparr>) input cur"
    by (simp only: ParseBoolNull_order)
  have d: "ParseNum \<Gamma> input cur = ParseNum (\<Gamma>\<lparr>sign_range := s\<rparr>) input cur"
    by (rule ParseNum_env) simp
  have e: "\<not> (snd (Consume input p (c # cs)) = None \<and> snd (Consume input p (d # ds)) = None)"
    if "c \<noteq> d" for p c cs d ds
  proof
    assume "snd (Consume input p (c # cs)) = None \<and> snd (Consume input p (d # ds)) = None"
    then obtain n n' where "Consume input p (c # cs) = (n, None)"
      "Consume input p (d # ds) = (n', None)"
      by (cases "Consume input p (c # cs)"; cases "Consume input p (d # ds)") auto
    from Consume_exclusive [OF this] that show False by simp
  qed
  show ?thesis
    using a b c d ParseRunes_env [where \<Gamma> = \<Gamma> and input = input and s = s and l = l]
    by (simp add: e)
qed

subsection \<open>Evaluation on concrete inputs\<close>

lemma bits_eval:
  "bits 0 = 0"
  "bits 1 = 1"
  "bits (numeral k) = 1 + bits (numeral k div 2)"
  by (simp_all add: bits.simps [of 0] bits.simps [of 1] bits.simps [of "numeral k"])

lemma odd_part_eval:
  "odd_part 0 e = (0, 0)"
  "odd_part 1 e = (1, e)"
  "odd_part (numeral k) e =
     (if even (numeral k :: int) then odd_part (numeral k div 2) (e + 1) else (numeral k, e))"
  by (simp_all add: odd_part.simps [of 0] odd_part.simps [of 1]
      odd_part.simps [of "numeral k"])

lemmas f64_eval = bits_eval odd_part_eval f64_of_int_def round_f64_def round_scaled_def
  round_nearest_even_def Let_def

lemmas decode_eval = DecodeString_def Decode_def Decode_loop.simps ReadCode_def
  leading_switch_def fold_following_def

lemmas parse_eval = ParseRunes_def
  ParseAny.simps ParseArray.simps ParseMap.simps ParseKeyValue.simps ParseArrayLike.simps
  ParseArrayLike_loop.simps ParseString_def ParseString_loop.simps ParseEscape_def ScanHex_def
  ScanHex_loop.simps Hex2Num_def IsNoEscape_def string_of_runes_def utf8_encode_def
  ParseNum_def Consume_def SkipSpace.simps runes_of_literal_def ScanInt_def
  ScanInt_loop.simps IsDigit_def frac_part_def frac_loop.simps exp_part_def
  ParseBoolNull_def

text \<open>The bytes of an ASCII text.\<close>

definition text_bytes :: "string \<Rightarrow> gostring" where
  "text_bytes s = map of_char s"


text \<open>
  One implementation of what the source leaves open, for the examples: every
  \<open>range\<close> visits its keys in the same order, and \<open>Pow10 n\<close> is the
  \<open>float64\<close> nearest to \<open>10\<^sup>n\<close>.
\<close>

definition example_env :: env where
  "example_env =
     \<lparr>sign_range = (\<lambda>_. PlusMinus), literal_range = (\<lambda>_. TFN),
      Pow10 = (\<lambda>n. if 0 \<le> n then round_f64 False (10 ^ nat n) 1
                     else round_f64 False 1 (10 ^ nat (- n)))\<rparr>"

lemma ParseRunes_fixed_order:
  "ParseRunes \<Gamma> input
     = ParseRunes (\<Gamma>\<lparr>sign_range := \<lambda>_. PlusMinus, literal_range := \<lambda>_. TFN\<rparr>) input"
  by (rule ParseRunes_env)

lemma Parse_ascii:
  assumes "DecodeString (text_bytes s) = Inr (runes_of_literal s)"
  shows "Parse \<Gamma> (text_bytes s) = ParseRunes \<Gamma> (runes_of_literal s)"
  by (simp add: Parse_def assms)

subsection \<open>Whitespace inside a number\<close>

text \<open>
  Claim C9 asks that a number be one contiguous token, so that \<open>1e +2\<close> is rejected.
  The source does not reject it.  After the exponent marker the loop over the signs
  calls \<open>Consume\<close>, which skips whitespace before it looks for the sign, and keeps
  the position after the whitespace when no sign is there; so whitespace is accepted
  between the marker and the sign and between the marker and the digits.  The other
  places inside a number do reject whitespace: after the leading \<open>-\<close>, around the
  \<open>.\<close>, before the marker, and between the exponent sign and its digits.
\<close>

theorem exponent_whitespace_accepted:
  "ParseRunes \<Gamma> (runes_of_literal ''1e +2'')
     = Inr (JFloat (fmul (f64_of_int 1) (Pow10 \<Gamma> 2))) \<and>
   Parse \<Gamma> (text_bytes ''1e +2'')
     = Inr (JFloat (fmul (f64_of_int 1) (Pow10 \<Gamma> 2))) \<and>
   ParseRunes \<Gamma> (runes_of_literal ''1e 2'')
     = Inr (JFloat (fmul (f64_of_int 1) (Pow10 \<Gamma> 2))) \<and>
   ParseRunes \<Gamma> (runes_of_literal ''1e+2'')
     = Inr (JFloat (fmul (f64_of_int 1) (Pow10 \<Gamma> 2))) \<and>
   ParseRunes \<Gamma> (runes_of_literal ''1e+ 2'') = Inl (ParseError 3 ExpectDigits) \<and>
   ParseRunes \<Gamma> (runes_of_literal ''- 1'') = Inl (ParseError 1 ExpectDigits) \<and>
   ParseRunes \<Gamma> (runes_of_literal ''1. 5'') = Inl (ParseError 2 ExpectDigits) \<and>
   ParseRunes \<Gamma> (runes_of_literal ''1 .5'') = Inl (ParseError 2 NotTerminated) \<and>
   ParseRunes \<Gamma> (runes_of_literal ''1 e2'') = Inl (ParseError 2 NotTerminated)"
proof -
  have d: "DecodeString (text_bytes ''1e +2'') = Inr (runes_of_literal ''1e +2'')"
    by (simp add: decode_eval text_bytes_def runes_of_literal_def)
  have 1: "ParseRunes \<Gamma> (runes_of_literal ''1e +2'')
     = Inr (JFloat (fmul (f64_of_int 1) (Pow10 \<Gamma> 2)))"
    by (subst ParseRunes_fixed_order) (simp add: parse_eval f64_eval)
  have 2: "ParseRunes \<Gamma> (runes_of_literal ''1e 2'')
     = Inr (JFloat (fmul (f64_of_int 1) (Pow10 \<Gamma> 2)))"
    by (subst ParseRunes_fixed_order) (simp add: parse_eval f64_eval)
  have 3: "ParseRunes \<Gamma> (runes_of_literal ''1e+2'')
     = Inr (JFloat (fmul (f64_of_int 1) (Pow10 \<Gamma> 2)))"
    by (subst ParseRunes_fixed_order) (simp add: parse_eval f64_eval)
  have 4: "ParseRunes \<Gamma> (runes_of_literal ''1e+ 2'') = Inl (ParseError 3 ExpectDigits)"
    by (subst ParseRunes_fixed_order) (simp add: parse_eval f64_eval)
  have 5: "ParseRunes \<Gamma> (runes_of_literal ''- 1'') = Inl (ParseError 1 ExpectDigits)"
    by (subst ParseRunes_fixed_order) (simp add: parse_eval f64_eval)
  have 6: "ParseRunes \<Gamma> (runes_of_literal ''1. 5'') = Inl (ParseError 2 ExpectDigits)"
    by (subst ParseRunes_fixed_order) (simp add: parse_eval f64_eval)
  have 7: "ParseRunes \<Gamma> (runes_of_literal ''1 .5'') = Inl (ParseError 2 NotTerminated)"
    by (subst ParseRunes_fixed_order) (simp add: parse_eval f64_eval)
  have 8: "ParseRunes \<Gamma> (runes_of_literal ''1 e2'') = Inl (ParseError 2 NotTerminated)"
    by (subst ParseRunes_fixed_order) (simp add: parse_eval f64_eval)
  have 9: "Parse \<Gamma> (text_bytes ''1e +2'')
     = Inr (JFloat (fmul (f64_of_int 1) (Pow10 \<Gamma> 2)))"
    by (simp only: Parse_ascii [OF d] 1)
  show ?thesis by (intro conjI 1 2 3 4 5 6 7 8 9)
qed

subsection \<open>The string production\<close>

lemma IsNoEscape_not_quote: "IsNoEscape ch \<Longrightarrow> ch \<noteq> 0x22 \<and> ch \<noteq> 0x5C"
  by (auto simp: IsNoEscape_def)

lemma ParseString_loop_literal:
  assumes "nxt < length input" "IsNoEscape (input ! nxt)"
  shows "ParseString_loop input nxt val = ParseString_loop input (nxt + 1) (val @ [input ! nxt])"
  using assms IsNoEscape_not_quote [OF assms(2)]
  by (subst ParseString_loop.simps) (simp add: Let_def)

lemma ParseString_loop_run:
  assumes "nxt \<le> j" "j \<le> length input" "\<forall>i. nxt \<le> i \<and> i < j \<longrightarrow> IsNoEscape (input ! i)"
  shows "ParseString_loop input nxt val
           = ParseString_loop input j (val @ take (j - nxt) (drop nxt input))"
  using assms
proof (induction "j - nxt" arbitrary: nxt val)
  case 0
  then show ?case by simp
next
  case (Suc k)
  then have lt: "nxt < j" "nxt < length input" and ne: "IsNoEscape (input ! nxt)" by auto
  have "ParseString_loop input nxt val
      = ParseString_loop input (nxt + 1) (val @ [input ! nxt])"
    by (rule ParseString_loop_literal [OF lt(2) ne])
  also have "\<dots> = ParseString_loop input j
      ((val @ [input ! nxt]) @ take (j - (nxt + 1)) (drop (nxt + 1) input))"
    using Suc.prems Suc.hyps(2) lt by (intro Suc.hyps(1)) auto
  also have "(val @ [input ! nxt]) @ take (j - (nxt + 1)) (drop (nxt + 1) input)
      = val @ take (j - nxt) (drop nxt input)"
  proof -
    have "drop nxt input = input ! nxt # drop (nxt + 1) input"
      using lt(2) by (simp add: Cons_nth_drop_Suc)
    moreover have "j - nxt = Suc (j - (nxt + 1))" using lt(1) by simp
    ultimately show ?thesis by simp
  qed
  finally show ?case .
qed

lemma ParseString_open:
  assumes "SkipSpace input cur < length input" "input ! SkipSpace input cur = 0x22"
  shows "ParseString input cur = ParseString_loop input (SkipSpace input cur + 1) []"
proof -
  have "length input - SkipSpace input cur \<noteq> 0" using assms(1) by simp
  then show ?thesis using assms
    by (simp add: ParseString_def Consume_def runes_of_literal_def Let_def)
qed

text \<open>
  Claim C3.  In the string production, a code point between the quotes that is neither
  the quote nor the backslash is appended literally exactly when it lies in
  \<open>[0x23, 0x5B] \<union> [0x5D, 0x10FFFF] \<union> {0x20, 0x21}\<close>; any other such code point
  makes the parse fail with "unescaped char" at its position (among the code points
  \<open>[0, 0x10FFFF]\<close> these are the ones below \<open>0x20\<close>); reaching the end of the
  input before a closing quote fails with "string not terminated".  The first two
  groups of the statement are about one turn of the loop of \<open>ParseString\<close> at the
  position \<open>nxt\<close>; the third is about the loop, and the fourth about
  \<open>ParseString\<close> itself, on a run of such code points from \<open>nxt\<close> to \<open>j\<close>.
\<close>

theorem string_production_chars:
  "(nxt < length input \<and> input ! nxt \<noteq> 0x22 \<and> input ! nxt \<noteq> 0x5C \<longrightarrow>
      (IsNoEscape (input ! nxt) \<longleftrightarrow>
         (0x23 \<le> input ! nxt \<and> input ! nxt \<le> 0x5B) \<or>
         (0x5D \<le> input ! nxt \<and> input ! nxt \<le> 0x10FFFF) \<or>
         input ! nxt = 0x20 \<or> input ! nxt = 0x21) \<and>
      (IsNoEscape (input ! nxt) \<longrightarrow>
         ParseString_loop input nxt val
           = ParseString_loop input (nxt + 1) (val @ [input ! nxt])) \<and>
      (\<not> IsNoEscape (input ! nxt) \<longrightarrow>
         ParseString_loop input nxt val
           = Inl (ParseError nxt (UnescapedChar (input ! nxt)))) \<and>
      (0 \<le> input ! nxt \<and> input ! nxt \<le> 0x10FFFF \<longrightarrow>
         (\<not> IsNoEscape (input ! nxt) \<longleftrightarrow> input ! nxt < 0x20))) \<and>
   (length input \<le> nxt \<longrightarrow>
      ParseString_loop input nxt val = Inl (ParseError nxt StringNotTerminated)) \<and>
   (nxt \<le> j \<and> j \<le> length input \<and> (\<forall>i. nxt \<le> i \<and> i < j \<longrightarrow> IsNoEscape (input ! i)) \<longrightarrow>
      (j < length input \<and> input ! j = 0x22 \<longrightarrow>
         ParseString_loop input nxt val
           = Inr (string_of_runes (val @ take (j - nxt) (drop nxt input)), j + 1)) \<and>
      (j < length input \<and> input ! j \<noteq> 0x22 \<and> input ! j \<noteq> 0x5C \<and> \<not> IsNoEscape (input ! j) \<longrightarrow>
         ParseString_loop input nxt val = Inl (ParseError j (UnescapedChar (input ! j)))) \<and>
      (j = length input \<longrightarrow>
         ParseString_loop input nxt val = Inl (ParseError (length input) StringNotTerminated))) \<and>
   (SkipSpace input cur < length input \<and> input ! SkipSpace input cur = 0x22 \<and>
    nxt = SkipSpace input cur + 1 \<and> nxt \<le> j \<and> j \<le> length input \<and>
    (\<forall>i. nxt \<le> i \<and> i < j \<longrightarrow> IsNoEscape (input ! i)) \<longrightarrow>
      (j < length input \<and> input ! j = 0x22 \<longrightarrow>
         ParseString input cur = Inr (string_of_runes (take (j - nxt) (drop nxt input)), j + 1)) \<and>
      (j < length input \<and> input ! j \<noteq> 0x22 \<and> input ! j \<noteq> 0x5C \<and> \<not> IsNoEscape (input ! j) \<longrightarrow>
         ParseString input cur = Inl (ParseError j (UnescapedChar (input ! j)))) \<and>
      (j = length input \<longrightarrow>
         ParseString input cur = Inl (ParseError (length input) StringNotTerminated)))"
proof -
  have one: "(IsNoEscape (input ! nxt) \<longleftrightarrow>
         (0x23 \<le> input ! nxt \<and> input ! nxt \<le> 0x5B) \<or>
         (0x5D \<le> input ! nxt \<and> input ! nxt \<le> 0x10FFFF) \<or>
         input ! nxt = 0x20 \<or> input ! nxt = 0x21) \<and>
      (IsNoEscape (input ! nxt) \<longrightarrow>
         ParseString_loop input nxt val
           = ParseString_loop input (nxt + 1) (val @ [input ! nxt])) \<and>
      (\<not> IsNoEscape (input ! nxt) \<longrightarrow>
         ParseString_loop input nxt val
           = Inl (ParseError nxt (UnescapedChar (input ! nxt)))) \<and>
      (0 \<le> input ! nxt \<and> input ! nxt \<le> 0x10FFFF \<longrightarrow>
         (\<not> IsNoEscape (input ! nxt) \<longleftrightarrow> input ! nxt < 0x20))"
    if a: "nxt < length input \<and> input ! nxt \<noteq> 0x22 \<and> input ! nxt \<noteq> 0x5C"
  proof (intro conjI impI)
    show "IsNoEscape (input ! nxt) \<longleftrightarrow>
         (0x23 \<le> input ! nxt \<and> input ! nxt \<le> 0x5B) \<or>
         (0x5D \<le> input ! nxt \<and> input ! nxt \<le> 0x10FFFF) \<or>
         input ! nxt = 0x20 \<or> input ! nxt = 0x21"
      by (simp add: IsNoEscape_def)
    show "ParseString_loop input nxt val
           = ParseString_loop input (nxt + 1) (val @ [input ! nxt])"
      if "IsNoEscape (input ! nxt)"
      using a that by (intro ParseString_loop_literal) simp_all
    show "ParseString_loop input nxt val
           = Inl (ParseError nxt (UnescapedChar (input ! nxt)))"
      if "\<not> IsNoEscape (input ! nxt)"
      using a that by (subst ParseString_loop.simps) (simp add: Let_def)
    show "\<not> IsNoEscape (input ! nxt) \<longleftrightarrow> input ! nxt < 0x20"
      if "0 \<le> input ! nxt \<and> input ! nxt \<le> 0x10FFFF"
      using a that by (auto simp: IsNoEscape_def)
  qed
  have two: "ParseString_loop input nxt val = Inl (ParseError nxt StringNotTerminated)"
    if "length input \<le> nxt"
    using that by (subst ParseString_loop.simps) simp
  have three: "(j < length input \<and> input ! j = 0x22 \<longrightarrow>
         ParseString_loop input nxt v
           = Inr (string_of_runes (v @ take (j - nxt) (drop nxt input)), j + 1)) \<and>
      (j < length input \<and> input ! j \<noteq> 0x22 \<and> input ! j \<noteq> 0x5C \<and> \<not> IsNoEscape (input ! j) \<longrightarrow>
         ParseString_loop input nxt v = Inl (ParseError j (UnescapedChar (input ! j)))) \<and>
      (j = length input \<longrightarrow>
         ParseString_loop input nxt v = Inl (ParseError (length input) StringNotTerminated))"
    if r: "nxt \<le> j \<and> j \<le> length input \<and> (\<forall>i. nxt \<le> i \<and> i < j \<longrightarrow> IsNoEscape (input ! i))"
    for v
  proof (intro conjI impI)
    have run: "ParseString_loop input nxt v
        = ParseString_loop input j (v @ take (j - nxt) (drop nxt input))"
      using r by (intro ParseString_loop_run) simp_all
    show "ParseString_loop input nxt v
           = Inr (string_of_runes (v @ take (j - nxt) (drop nxt input)), j + 1)"
      if "j < length input \<and> input ! j = 0x22"
      unfolding run using that by (subst ParseString_loop.simps) (simp add: Let_def)
    show "ParseString_loop input nxt v = Inl (ParseError j (UnescapedChar (input ! j)))"
      if "j < length input \<and> input ! j \<noteq> 0x22 \<and> input ! j \<noteq> 0x5C \<and> \<not> IsNoEscape (input ! j)"
      unfolding run using that by (subst ParseString_loop.simps) (simp add: Let_def)
    show "ParseString_loop input nxt v = Inl (ParseError (length input) StringNotTerminated)"
      if "j = length input"
      unfolding run using that by (subst ParseString_loop.simps) simp
  qed
  have four: "(j < length input \<and> input ! j = 0x22 \<longrightarrow>
         ParseString input cur = Inr (string_of_runes (take (j - nxt) (drop nxt input)), j + 1)) \<and>
      (j < length input \<and> input ! j \<noteq> 0x22 \<and> input ! j \<noteq> 0x5C \<and> \<not> IsNoEscape (input ! j) \<longrightarrow>
         ParseString input cur = Inl (ParseError j (UnescapedChar (input ! j)))) \<and>
      (j = length input \<longrightarrow>
         ParseString input cur = Inl (ParseError (length input) StringNotTerminated))"
    if s: "SkipSpace input cur < length input \<and> input ! SkipSpace input cur = 0x22 \<and>
      nxt = SkipSpace input cur + 1 \<and> nxt \<le> j \<and> j \<le> length input \<and>
      (\<forall>i. nxt \<le> i \<and> i < j \<longrightarrow> IsNoEscape (input ! i))"
  proof -
    have o: "ParseString input cur = ParseString_loop input nxt []"
      using s ParseString_open [of input cur] by simp
    have r: "nxt \<le> j \<and> j \<le> length input \<and> (\<forall>i. nxt \<le> i \<and> i < j \<longrightarrow> IsNoEscape (input ! i))"
      using s by simp
    show ?thesis using three [OF r, of "[]"] by (simp only: o append_Nil)
  qed
  show ?thesis
    using one two three [of val] four by blast
qed

theorem string_production_chars_witness:
  "ParseString_loop [0x22, 0x61, 0x21, 0x22] 1 [] = Inr ([0x61, 0x21], 4) \<and>
   ParseString [0x20, 0x22, 0x21, 0x22] 0 = Inr ([0x21], 4) \<and>
   ParseString [0x22, 0x61, 0x09, 0x22] 0 = Inl (ParseError 2 (UnescapedChar 0x09)) \<and>
   ParseString [0x22, 0x61] 0 = Inl (ParseError 2 StringNotTerminated) \<and>
   IsNoEscape 0x61 \<and> \<not> IsNoEscape 0x09"
proof -
  have sk: "SkipSpace [0x22, 0x61, 0x09, 0x22] 0 = 0" "SkipSpace [0x22, 0x61] 0 = 0"
    "SkipSpace [0x20, 0x22, 0x21, 0x22] 0 = 1"
    by (simp_all add: SkipSpace.simps)
  have n1: "\<forall>i. (1::nat) \<le> i \<and> i < 3 \<longrightarrow> IsNoEscape ([0x22, 0x61, 0x21, 0x22] ! i)"
  proof (intro allI impI)
    fix i :: nat assume "1 \<le> i \<and> i < 3"
    then have "i = 1 \<or> i = 2" by auto
    then show "IsNoEscape ([0x22, 0x61, 0x21, 0x22] ! i)"
      by (auto simp: IsNoEscape_def)
  qed
  have n2: "\<forall>i. (2::nat) \<le> i \<and> i < 3 \<longrightarrow> IsNoEscape ([0x20, 0x22, 0x21, 0x22] ! i)"
  proof (intro allI impI)
    fix i :: nat assume "2 \<le> i \<and> i < 3"
    then have "i = 2" by auto
    then show "IsNoEscape ([0x20, 0x22, 0x21, 0x22] ! i)"
      by (simp add: IsNoEscape_def)
  qed
  have n3: "\<forall>i. (1::nat) \<le> i \<and> i < 2 \<longrightarrow> IsNoEscape ([0x22, 0x61, 0x09, 0x22] ! i)"
  proof (intro allI impI)
    fix i :: nat assume "1 \<le> i \<and> i < 2"
    then have "i = 1" by auto
    then show "IsNoEscape ([0x22, 0x61, 0x09, 0x22] ! i)"
      by (simp add: IsNoEscape_def)
  qed
  have n4: "\<forall>i. (1::nat) \<le> i \<and> i < 2 \<longrightarrow> IsNoEscape ([0x22, 0x61] ! i)"
  proof (intro allI impI)
    fix i :: nat assume "1 \<le> i \<and> i < 2"
    then have "i = 1" by auto
    then show "IsNoEscape ([0x22, 0x61] ! i)"
      by (simp add: IsNoEscape_def)
  qed
  have a: "ParseString_loop [0x22, 0x61, 0x21, 0x22] 1 []
     = Inr (string_of_runes ([] @ take (3 - 1) (drop 1 [0x22, 0x61, 0x21, 0x22])), 3 + 1)"
    by (rule string_production_chars [of 1 "[0x22, 0x61, 0x21, 0x22]" "[]" 3 0,
          THEN conjunct2, THEN conjunct2, THEN conjunct1, THEN mp, THEN conjunct1, THEN mp])
       (use n1 in simp_all)
  have b: "ParseString [0x20, 0x22, 0x21, 0x22] 0
     = Inr (string_of_runes (take (3 - 2) (drop 2 [0x20, 0x22, 0x21, 0x22])), 3 + 1)"
    by (rule string_production_chars [of 2 "[0x20, 0x22, 0x21, 0x22]" "[]" 3 0,
          THEN conjunct2, THEN conjunct2, THEN conjunct2, THEN mp, THEN conjunct1, THEN mp])
       (use n2 sk in simp_all)
  have c: "ParseString [0x22, 0x61, 0x09, 0x22] 0
     = Inl (ParseError 2 (UnescapedChar ([0x22, 0x61, 0x09, 0x22] ! 2)))"
    by (rule string_production_chars [of 1 "[0x22, 0x61, 0x09, 0x22]" "[]" 2 0,
          THEN conjunct2, THEN conjunct2, THEN conjunct2, THEN mp,
          THEN conjunct2, THEN conjunct1, THEN mp])
       (use n3 sk in \<open>simp_all add: IsNoEscape_def\<close>)
  have d: "ParseString [0x22, 0x61] 0
     = Inl (ParseError (length [0x22, 0x61 :: int]) StringNotTerminated)"
    by (rule string_production_chars [of 1 "[0x22, 0x61]" "[]" 2 0,
          THEN conjunct2, THEN conjunct2, THEN conjunct2, THEN mp,
          THEN conjunct2, THEN conjunct2, THEN mp])
       (use n4 sk in simp_all)
  have e: "IsNoEscape 0x61" "\<not> IsNoEscape 0x09" by (simp_all add: IsNoEscape_def)
  have s: "string_of_runes [0x61, 0x21] = [0x61, 0x21]" "string_of_runes [0x21] = [0x21]"
    by (simp_all add: string_of_runes_def utf8_encode_def)
  show ?thesis using a b c d e s by simp
qed

subsection \<open>The results of the productions\<close>

text \<open>
  An error that the parser returns as an \<open>error\<close> value, as opposed to a run-time
  panic.
\<close>

fun is_ParseError :: "error \<Rightarrow> bool" where
  "is_ParseError (ParseError pos m) = True"
| "is_ParseError e = False"

lemma Consume_error: "Consume input cur tok = (n, Some e) \<Longrightarrow> is_ParseError e"
  by (auto simp: Consume_def Let_def split: if_splits option.splits)

lemma Hex2Num_error: "cur < length input \<Longrightarrow> Hex2Num input cur = Inl e \<Longrightarrow> is_ParseError e"
  by (auto simp: Hex2Num_def Let_def split: if_splits)

lemma ScanHex_loop_error:
  "cur + 4 \<le> length input \<Longrightarrow> ScanHex_loop input cur i val = Inl e \<Longrightarrow> is_ParseError e"
proof (induction input cur i val rule: ScanHex_loop.induct)
  case (1 input cur i val)
  show ?case
  proof (cases "i < 4")
    case False
    with "1.prems" show ?thesis by (subst (asm) ScanHex_loop.simps) simp
  next
    case lt: True
    then have b: "cur + i < length input" using "1.prems"(1) by simp
    show ?thesis
    proof (cases "Hex2Num input (cur + i)")
      case (Inl err)
      with "1.prems" lt have "e = err" by (subst (asm) ScanHex_loop.simps) simp
      with Hex2Num_error [OF b Inl] show ?thesis by simp
    next
      case (Inr d)
      with "1.prems" lt have "ScanHex_loop input cur (i + 1) (push_bit 4 val OR d) = Inl e"
        by (subst (asm) ScanHex_loop.simps) simp
      with "1.IH" [OF lt Inr "1.prems"(1)] show ?thesis by simp
    qed
  qed
qed

lemma ScanHex_error: "ScanHex input cur = Inl e \<Longrightarrow> is_ParseError e"
  by (auto simp: ScanHex_def split: if_splits dest: ScanHex_loop_error [rotated])

lemma ParseEscape_error: "ParseEscape input cur = Inl e \<Longrightarrow> is_ParseError e"
  by (auto simp: ParseEscape_def Let_def split: if_splits sum.splits dest: ScanHex_error)

lemma ParseString_loop_error:
  "ParseString_loop input nxt val = Inl e \<Longrightarrow> is_ParseError e"
proof (induction input nxt val rule: ParseString_loop.induct)
  case (1 input nxt val)
  note eq = "1.prems" [unfolded ParseString_loop.simps [of input nxt val]]
  show ?case
  proof (cases "nxt < length input")
    case False
    with eq show ?thesis by auto
  next
    case lt: True
    consider (quote) "input ! nxt = 0x22"
      | (esc) "input ! nxt \<noteq> 0x22" "input ! nxt = 0x5C"
      | (lit) "input ! nxt \<noteq> 0x22" "input ! nxt \<noteq> 0x5C" "IsNoEscape (input ! nxt)"
      | (bad) "input ! nxt \<noteq> 0x22" "input ! nxt \<noteq> 0x5C" "\<not> IsNoEscape (input ! nxt)"
      by blast
    then show ?thesis
    proof cases
      case quote
      with eq lt show ?thesis by (simp add: Let_def)
    next
      case esc
      show ?thesis
      proof (cases "ParseEscape input (nxt + 1)")
        case (Inl err)
        with eq lt esc have "e = err" by (simp add: Let_def)
        with ParseEscape_error [OF Inl] show ?thesis by simp
      next
        case (Inr r)
        obtain ch n' where r: "r = (ch, n')" by (cases r)
        from eq lt esc Inr r have "ParseString_loop input n' (val @ [ch]) = Inl e"
          by (simp add: Let_def)
        with "1.IH"(1) [OF lt refl _ _ Inr [unfolded r] refl] esc show ?thesis by simp
      qed
    next
      case lit
      with eq lt have "ParseString_loop input (nxt + 1) (val @ [input ! nxt]) = Inl e"
        by (simp add: Let_def)
      with "1.IH"(2) [OF lt refl] lit show ?thesis by simp
    next
      case bad
      with eq lt show ?thesis by (auto simp: Let_def)
    qed
  qed
qed

lemma ParseString_error: "ParseString input cur = Inl e \<Longrightarrow> is_ParseError e"
  by (auto simp: ParseString_def split: prod.splits option.splits
      dest: Consume_error ParseString_loop_error)

lemma ScanInt_error: "ScanInt input cur = Inl e \<Longrightarrow> is_ParseError e"
  by (auto simp: ScanInt_def split: if_splits)

lemma frac_part_error: "frac_part input nxt = Inl e \<Longrightarrow> is_ParseError e"
  by (auto simp: frac_part_def split: if_splits prod.splits)

lemma exp_part_error: "exp_part \<Gamma> input nxt isf = Inl e \<Longrightarrow> is_ParseError e"
  by (auto simp: exp_part_def split: if_splits prod.splits sum.splits dest: ScanInt_error)

lemma ParseNum_error: "ParseNum \<Gamma> input cur = Inl e \<Longrightarrow> is_ParseError e"
  by (auto simp: ParseNum_def Let_def split: if_splits prod.splits sum.splits
      dest: ScanInt_error frac_part_error exp_part_error)

lemma literal_loop_error: "literal_loop ms input cur nx = Inl e \<Longrightarrow> is_ParseError e"
  by (induction ms input cur nx rule: literal_loop.induct)
     (auto split: prod.splits option.splits)

lemma ParseBoolNull_error: "ParseBoolNull \<Gamma> input cur = Inl e \<Longrightarrow> is_ParseError e"
  by (auto simp: ParseBoolNull_def dest: literal_loop_error)

lemma convert_items_kvs:
  "convert_items (map (case_prod JKeyValue) kvs) jmap
     = Inr (fold (\<lambda>(key, val). fmupd key val) kvs jmap)"
  by (induction kvs arbitrary: jmap) (auto split: prod.splits)

lemma Parse_results:
  "\<forall>e. ParseAny \<Gamma> input cur = Inl e \<longrightarrow> is_ParseError e"
  "\<forall>e. ParseArray \<Gamma> input cur = Inl e \<longrightarrow> is_ParseError e"
  "\<forall>e. ParseMap \<Gamma> input cur = Inl e \<longrightarrow> is_ParseError e"
  "(\<forall>e. ParseKeyValue \<Gamma> input cur = Inl e \<longrightarrow> is_ParseError e) \<and>
   (\<forall>v n. ParseKeyValue \<Gamma> input cur = Inr (v, n) \<longrightarrow> (\<exists>key val. v = JKeyValue key val))"
  "(\<forall>e. ParseArrayLike \<Gamma> input cur itemParser bracket = Inl e \<longrightarrow> is_ParseError e) \<and>
   (itemParser = ParseKeyValue_func \<longrightarrow>
      (\<forall>v n. ParseArrayLike \<Gamma> input cur itemParser bracket = Inr (v, n) \<longrightarrow>
         (\<exists>kvs. v = JArray (map (case_prod JKeyValue) kvs))))"
  "(\<forall>e. ParseArrayLike_loop \<Gamma> input nxt itemParser bracket arr = Inl e \<longrightarrow> is_ParseError e) \<and>
   (itemParser = ParseKeyValue_func \<longrightarrow>
      (\<forall>v n kvs0. arr = map (case_prod JKeyValue) kvs0 \<longrightarrow>
         ParseArrayLike_loop \<Gamma> input nxt itemParser bracket arr = Inr (v, n) \<longrightarrow>
         (\<exists>kvs. v = JArray (map (case_prod JKeyValue) kvs))))"
proof (induct \<Gamma> input cur and \<Gamma> input cur and \<Gamma> input cur and \<Gamma> input cur
    and \<Gamma> input cur itemParser bracket and \<Gamma> input nxt itemParser bracket arr
    rule: ParseAny_ParseArray_ParseMap_ParseKeyValue_ParseArrayLike_ParseArrayLike_loop.induct)
  case (1 \<Gamma> input cur)
  let ?nx = "SkipSpace input cur"
  show ?case
  proof (intro allI impI)
    fix e
    assume r: "ParseAny \<Gamma> input cur = Inl e"
    show "is_ParseError e"
    proof (cases "length input \<le> ?nx")
      case True
      with r show ?thesis by (auto simp: ParseAny.simps [of _ input cur])
    next
      case lt: False
      show ?thesis
      proof (cases "input ! ?nx = 0x5B")
        case True
        with r lt have "ParseArray \<Gamma> input ?nx = Inl e"
          by (simp add: ParseAny.simps [of _ input cur])
        with "1"(1) [OF refl lt refl True] show ?thesis by simp
      next
        case n1: False
        show ?thesis
        proof (cases "input ! ?nx = 0x7B")
          case True
          with r lt n1 have "ParseMap \<Gamma> input ?nx = Inl e"
            by (simp add: ParseAny.simps [of _ input cur])
          with "1"(2) [OF refl lt refl n1 True] show ?thesis by simp
        next
          case n2: False
          with r lt n1 show ?thesis
            by (auto simp: ParseAny.simps [of _ input cur] Let_def
                split: if_splits sum.splits
                dest: ParseString_error ParseNum_error ParseBoolNull_error)
        qed
      qed
    qed
  qed
next
  case (2 \<Gamma> input cur)
  then show ?case by (simp add: ParseArray.simps)
next
  case (3 \<Gamma> input cur)
  show ?case
  proof (intro allI impI)
    fix e
    assume r: "ParseMap \<Gamma> input cur = Inl e"
    show "is_ParseError e"
    proof (cases "ParseArrayLike \<Gamma> input cur ParseKeyValue_func (''{'', ''}'')")
      case (Inl err)
      with r have "e = err" by (simp add: ParseMap.simps)
      with "3" Inl show ?thesis by simp
    next
      case (Inr p)
      obtain v n where p: "p = (v, n)" by (cases p)
      from "3" Inr p obtain kvs where "v = JArray (map (case_prod JKeyValue) kvs)" by auto
      with r Inr p show ?thesis by (simp add: ParseMap.simps convert_items_kvs)
    qed
  qed
next
  case (4 \<Gamma> input cur)
  show ?case
  proof (cases "ParseString input cur")
    case (Inl err)
    with ParseString_error [OF Inl] show ?thesis by (simp add: ParseKeyValue.simps)
  next
    case (Inr r)
    obtain key n0 where r: "r = (key, n0)" by (cases r)
    obtain n1 e1 where c: "Consume input n0 '':'' = (n1, e1)"
      by (cases "Consume input n0 '':''")
    show ?thesis
    proof (cases e1)
      case None
      from "4" [OF Inr [unfolded r] refl c [symmetric] None]
      have ih: "\<forall>e. ParseAny \<Gamma> input n1 = Inl e \<longrightarrow> is_ParseError e" .
      have "ParseKeyValue \<Gamma> input cur =
         (case ParseAny \<Gamma> input n1 of Inl err \<Rightarrow> Inl err
          | Inr (val, next2) \<Rightarrow> Inr (JKeyValue key val, next2))"
        using Inr r c None by (simp add: ParseKeyValue.simps)
      with ih show ?thesis by (auto split: sum.splits)
    next
      case (Some err)
      with Inr r c Consume_error [of input n0 "'':''" n1 err] show ?thesis
        by (simp add: ParseKeyValue.simps)
    qed
  qed
next
  case (5 \<Gamma> input cur itemParser bracket)
  obtain n0 e0 where c0: "Consume input cur (fst bracket) = (n0, e0)"
    by (cases "Consume input cur (fst bracket)")
  obtain n1 e1 where c1: "Consume input n0 (snd bracket) = (n1, e1)"
    by (cases "Consume input n0 (snd bracket)")
  show ?case
  proof (cases e0)
    case (Some err)
    with c0 Consume_error [of input cur "fst bracket" n0 err] show ?thesis
      by (simp add: ParseArrayLike.simps)
  next
    case n: None
    show ?thesis
    proof (cases e1)
      case None
      have "ParseArrayLike \<Gamma> input cur itemParser bracket = Inr (JArray [], n1)"
        using c0 c1 n None by (simp add: ParseArrayLike.simps)
      moreover have "JArray [] = JArray (map (case_prod JKeyValue) [])" by simp
      ultimately show ?thesis by (metis Inl_Inr_False Pair_inject sum.inject(2))
    next
      case (Some suberr)
      note ih = "5" [OF c0 [symmetric] n c1 [symmetric] Some]
      have eq: "ParseArrayLike \<Gamma> input cur itemParser bracket
        = ParseArrayLike_loop \<Gamma> input n1 itemParser bracket []"
        using c0 c1 n Some by (simp add: ParseArrayLike.simps)
      show ?thesis unfolding eq using ih by simp
    qed
  qed
next
  case (6 \<Gamma> input nxt itemParser bracket arr)
  let ?item = "case itemParser of
      ParseAny_func \<Rightarrow> ParseAny \<Gamma> input nxt
    | ParseKeyValue_func \<Rightarrow> ParseKeyValue \<Gamma> input nxt"
  let ?loop = "ParseArrayLike_loop \<Gamma> input nxt itemParser bracket arr"
  show ?case
  proof (cases ?item)
    case (Inl err)
    have l: "?loop = Inl err"
      by (subst ParseArrayLike_loop.simps) (simp add: Inl)
    have "is_ParseError err"
      using Inl "6"(1,2) by (cases itemParser) simp_all
    then show ?thesis unfolding l by simp
  next
    case (Inr r)
    obtain subval n1 where r: "r = (subval, n1)" by (cases r)
    obtain n2 e2 where c2: "Consume input n1 '','' = (n2, e2)"
      by (cases "Consume input n1 '',''")
    note i1 = Inr [unfolded r]
    have kv: "\<exists>key val. subval = JKeyValue key val" if "itemParser = ParseKeyValue_func"
      using i1 "6"(2) that by simp
    show ?thesis
    proof (cases e2)
      case None
      note ih = "6"(3) [OF i1 refl c2 [symmetric] None]
      have eq: "?loop = ParseArrayLike_loop \<Gamma> input n2 itemParser bracket (arr @ [subval])"
        by (subst ParseArrayLike_loop.simps) (simp add: i1 c2 None)
      show ?thesis unfolding eq
      proof (intro conjI impI allI)
        fix e
        assume "ParseArrayLike_loop \<Gamma> input n2 itemParser bracket (arr @ [subval]) = Inl e"
        with ih show "is_ParseError e" by simp
      next
        fix v n kvs0
        assume p: "itemParser = ParseKeyValue_func" and a: "arr = map (case_prod JKeyValue) kvs0"
          and s: "ParseArrayLike_loop \<Gamma> input n2 itemParser bracket (arr @ [subval]) = Inr (v, n)"
        from kv [OF p] obtain key val where "subval = JKeyValue key val" by auto
        with a have "arr @ [subval] = map (case_prod JKeyValue) (kvs0 @ [(key, val)])" by simp
        with ih p s show "\<exists>kvs. v = JArray (map (case_prod JKeyValue) kvs)" by blast
      qed
    next
      case (Some suberr)
      obtain n3 e3 where c3: "Consume input n2 (snd bracket) = (n3, e3)"
        by (cases "Consume input n2 (snd bracket)")
      have eq: "?loop = (case e3 of
           Some suberr' \<Rightarrow> Inl (ParseError n3 (ExpectCloseOrComma (snd bracket)))
         | None \<Rightarrow> Inr (JArray (arr @ [subval]), n3))"
        by (subst ParseArrayLike_loop.simps) (simp add: i1 c2 Some c3 split: option.splits)
      show ?thesis unfolding eq
      proof (intro conjI impI allI)
        fix e
        assume "(case e3 of
           Some suberr' \<Rightarrow> Inl (ParseError n3 (ExpectCloseOrComma (snd bracket)))
         | None \<Rightarrow> Inr (JArray (arr @ [subval]), n3)) = Inl e"
        then show "is_ParseError e" by (auto split: option.splits)
      next
        fix v n kvs0
        assume p: "itemParser = ParseKeyValue_func" and a: "arr = map (case_prod JKeyValue) kvs0"
          and s: "(case e3 of
           Some suberr' \<Rightarrow> Inl (ParseError n3 (ExpectCloseOrComma (snd bracket)))
         | None \<Rightarrow> Inr (JArray (arr @ [subval]), n3)) = Inr (v, n)"
        from kv [OF p] obtain key val where "subval = JKeyValue key val" by auto
        with a have "arr @ [subval] = map (case_prod JKeyValue) (kvs0 @ [(key, val)])" by simp
        moreover from s have "v = JArray (arr @ [subval])" by (auto split: option.splits)
        ultimately show "\<exists>kvs. v = JArray (map (case_prod JKeyValue) kvs)" by blast
      qed
    qed
  qed
qed

subsection \<open>Objects\<close>

lemma fold_fmupd_lookup:
  "fmlookup (fold (\<lambda>(key, val). fmupd key val) kvs jmap) k
     = (case map_of (rev kvs) k of Some x \<Rightarrow> Some x | None \<Rightarrow> fmlookup jmap k)"
  by (induction kvs arbitrary: jmap) (auto simp: map_add_def split: option.splits)

lemma map_of_rev_last:
  assumes "k \<notin> fst ` set post"
  shows "map_of (rev (pre @ (k, x) # post)) k = Some x"
proof -
  have "map_of (rev post) k = None" using assms by (simp add: map_of_eq_None_iff)
  then show ?thesis by (simp add: map_add_def)
qed

text \<open>
  Claim C4.  \<open>ParseMap\<close> reads the key-value pairs of an object with
  \<open>ParseArrayLike\<close>, which returns them in the order of the text, and stores them
  one after the other; so the object maps a key to the value of its last occurrence
  in the text, also when the key occurs more than once.  \<open>kvs\<close> is the list of the
  key-value pairs in the order of the text: the loop of \<open>ParseArrayLike\<close> appends
  the pair it reads at its position to the pairs read before it, and goes on after
  the comma or returns the list at the closing brace.
\<close>

theorem ParseMap_last_key_wins:
  "(ParseArrayLike \<Gamma> input cur ParseKeyValue_func (''{'', ''}'') = Inr (v, n) \<longrightarrow>
      (\<exists>kvs. v = JArray (map (case_prod JKeyValue) kvs))) \<and>
   (ParseArrayLike \<Gamma> input cur ParseKeyValue_func (''{'', ''}'')
        = Inr (JArray (map (case_prod JKeyValue) kvs), n) \<longrightarrow>
      ParseMap \<Gamma> input cur = Inr (JMap (fold (\<lambda>(key, val). fmupd key val) kvs fmempty), n)) \<and>
   (ParseArrayLike \<Gamma> input cur ParseKeyValue_func (''{'', ''}'') = Inl e \<longrightarrow>
      ParseMap \<Gamma> input cur = Inl e) \<and>
   fmlookup (fold (\<lambda>(key, val). fmupd key val) kvs fmempty) k = map_of (rev kvs) k \<and>
   (kvs = pre @ (k, x) # post \<and> k \<notin> fst ` set post \<longrightarrow>
      fmlookup (fold (\<lambda>(key, val). fmupd key val) kvs fmempty) k = Some x) \<and>
   Parse \<Gamma> (text_bytes ''{\"k\":true,\"k\":false}'')
     = Inr (JMap (fmupd (text_bytes ''k'') (JBool False) fmempty)) \<and>
   fmlookup (fmupd (text_bytes ''k'') (JBool False) fmempty) (text_bytes ''k'')
     = Some (JBool False) \<and>
   (ParseKeyValue \<Gamma> input nxt = Inr (item, n1) \<and> Consume input n1 '','' = (n2, None) \<longrightarrow>
      ParseArrayLike_loop \<Gamma> input nxt ParseKeyValue_func bracket arr
        = ParseArrayLike_loop \<Gamma> input n2 ParseKeyValue_func bracket (arr @ [item])) \<and>
   (ParseKeyValue \<Gamma> input nxt = Inr (item, n1) \<and> Consume input n1 '','' = (n2, Some e2) \<and>
    Consume input n2 (snd bracket) = (n3, None) \<longrightarrow>
      ParseArrayLike_loop \<Gamma> input nxt ParseKeyValue_func bracket arr
        = Inr (JArray (arr @ [item]), n3))"
proof (intro conjI impI)
  assume "ParseArrayLike \<Gamma> input cur ParseKeyValue_func (''{'', ''}'') = Inr (v, n)"
  with Parse_results(5) [of \<Gamma> input cur ParseKeyValue_func "(''{'', ''}'')"]
  show "\<exists>kvs. v = JArray (map (case_prod JKeyValue) kvs)" by simp
next
  assume "ParseArrayLike \<Gamma> input cur ParseKeyValue_func (''{'', ''}'')
        = Inr (JArray (map (case_prod JKeyValue) kvs), n)"
  then show "ParseMap \<Gamma> input cur
      = Inr (JMap (fold (\<lambda>(key, val). fmupd key val) kvs fmempty), n)"
    by (simp add: ParseMap.simps convert_items_kvs)
next
  assume "ParseArrayLike \<Gamma> input cur ParseKeyValue_func (''{'', ''}'') = Inl e"
  then show "ParseMap \<Gamma> input cur = Inl e" by (simp add: ParseMap.simps)
next
  show "fmlookup (fold (\<lambda>(key, val). fmupd key val) kvs fmempty) k = map_of (rev kvs) k"
    by (simp add: fold_fmupd_lookup split: option.splits)
next
  assume "kvs = pre @ (k, x) # post \<and> k \<notin> fst ` set post"
  then have "map_of (rev kvs) k = Some x" using map_of_rev_last [of k post pre x] by simp
  then show "fmlookup (fold (\<lambda>(key, val). fmupd key val) kvs fmempty) k = Some x"
    by (simp add: fold_fmupd_lookup)
next
  have d: "DecodeString (text_bytes ''{\"k\":true,\"k\":false}'')
      = Inr (runes_of_literal ''{\"k\":true,\"k\":false}'')"
    by (simp add: decode_eval text_bytes_def runes_of_literal_def)
  have "ParseRunes \<Gamma> (runes_of_literal ''{\"k\":true,\"k\":false}'')
      = Inr (JMap (fmupd (text_bytes ''k'') (JBool False) fmempty))"
    by (subst ParseRunes_fixed_order) (simp add: parse_eval text_bytes_def)
  then show "Parse \<Gamma> (text_bytes ''{\"k\":true,\"k\":false}'')
     = Inr (JMap (fmupd (text_bytes ''k'') (JBool False) fmempty))"
    by (simp only: Parse_ascii [OF d])
next
  show "fmlookup (fmupd (text_bytes ''k'') (JBool False) fmempty) (text_bytes ''k'')
     = Some (JBool False)"
    by simp
next
  assume "ParseKeyValue \<Gamma> input nxt = Inr (item, n1) \<and> Consume input n1 '','' = (n2, None)"
  then show "ParseArrayLike_loop \<Gamma> input nxt ParseKeyValue_func bracket arr
        = ParseArrayLike_loop \<Gamma> input n2 ParseKeyValue_func bracket (arr @ [item])"
    by (subst ParseArrayLike_loop.simps) simp
next
  assume "ParseKeyValue \<Gamma> input nxt = Inr (item, n1) \<and>
    Consume input n1 '','' = (n2, Some e2) \<and> Consume input n2 (snd bracket) = (n3, None)"
  then show "ParseArrayLike_loop \<Gamma> input nxt ParseKeyValue_func bracket arr
        = Inr (JArray (arr @ [item]), n3)"
    by (subst ParseArrayLike_loop.simps) simp
qed

theorem ParseMap_last_key_wins_witness:
  "ParseMap example_env (runes_of_literal ''{\"k\":true,\"k\":false}'') 0
     = Inr (JMap (fold (\<lambda>(key, val). fmupd key val)
                    [([0x6B :: byte], JBool True), ([0x6B], JBool False)] fmempty), 20) \<and>
   fmlookup (fold (\<lambda>(key, val). fmupd key val)
               [([0x6B :: byte], JBool True), ([0x6B], JBool False)] fmempty) [0x6B]
     = Some (JBool False)"
proof -
  let ?kvs = "[([0x6B], JBool True), ([0x6B], JBool False)] :: (gostring \<times> JsonValue) list"
  note T = ParseMap_last_key_wins [of example_env "runes_of_literal ''{\"k\":true,\"k\":false}''"
      0 "JArray (map (case_prod JKeyValue) ?kvs)" 20 ?kvs "ParseError 0 NotTerminated"
      "[0x6B]" "[([0x6B], JBool True)]" "JBool False" "[]"]
  have a: "ParseArrayLike example_env (runes_of_literal ''{\"k\":true,\"k\":false}'') 0
       ParseKeyValue_func (''{'', ''}'') = Inr (JArray (map (case_prod JKeyValue) ?kvs), 20)"
    by (simp add: parse_eval example_env_def)
  have b: "?kvs = [([0x6B], JBool True)] @ ([0x6B], JBool False) # [] \<and>
      [0x6B] \<notin> fst ` set ([] :: (gostring \<times> JsonValue) list)"
    by simp
  have 1: "ParseMap example_env (runes_of_literal ''{\"k\":true,\"k\":false}'') 0
     = Inr (JMap (fold (\<lambda>(key, val). fmupd key val) ?kvs fmempty), 20)"
    by (rule T [THEN conjunct2, THEN conjunct1, THEN mp, OF a])
  have 2: "fmlookup (fold (\<lambda>(key, val). fmupd key val) ?kvs fmempty) [0x6B]
     = Some (JBool False)"
    by (rule T [THEN conjunct2, THEN conjunct2, THEN conjunct2, THEN conjunct2,
          THEN conjunct1, THEN mp, OF b])
  show ?thesis by (intro conjI 1 2)
qed

subsection \<open>What a production reads\<close>

text \<open>
  A production called at the position \<open>cur\<close> reads the input from \<open>cur\<close> on and
  nothing before it: on two inputs of the same length that agree from \<open>cur\<close> on it
  returns the same result.
\<close>

definition same_from :: "nat \<Rightarrow> rune list \<Rightarrow> rune list \<Rightarrow> bool" where
  "same_from cur a b \<longleftrightarrow> length a = length b \<and> (\<forall>i. cur \<le> i \<and> i < length a \<longrightarrow> a ! i = b ! i)"

lemma same_from_mono: "same_from cur a b \<Longrightarrow> cur \<le> p \<Longrightarrow> same_from p a b"
  by (auto simp: same_from_def)

lemma same_from_length: "same_from cur a b \<Longrightarrow> length b = length a"
  by (simp add: same_from_def)

lemma same_from_nth: "same_from cur a b \<Longrightarrow> cur \<le> i \<Longrightarrow> i < length a \<Longrightarrow> b ! i = a ! i"
  by (simp add: same_from_def)

lemma same_from_end: "same_from cur a b \<Longrightarrow> length a \<le> p \<Longrightarrow> same_from p a b"
  by (auto simp: same_from_def)

lemma SkipSpace_same:
  "same_from cur a b \<Longrightarrow> SkipSpace b cur = SkipSpace a cur"
proof (induction a cur rule: SkipSpace.induct)
  case (1 a i)
  note len = same_from_length [OF "1.prems"]
  show ?case
  proof (cases "i < length a")
    case False
    with len show ?thesis by (simp add: SkipSpace_beyond)
  next
    case lt: True
    have nth: "b ! i = a ! i" using same_from_nth [OF "1.prems" _ lt] by simp
    show ?thesis
    proof (cases "a ! i = 0x20 \<or> a ! i = 0x09 \<or> a ! i = 0x0A \<or> a ! i = 0x0D")
      case True
      with lt have e: "SkipSpace a i = SkipSpace a (i + 1)" by (subst SkipSpace.simps) simp
      from True lt nth len have e': "SkipSpace b i = SkipSpace b (i + 1)"
        by (subst SkipSpace.simps) simp
      from "1.IH" [OF lt True] same_from_mono [OF "1.prems", of "i + 1"] e e'
      show ?thesis by simp
    next
      case False
      with lt have "SkipSpace a i = i" by (subst SkipSpace.simps) simp
      moreover from False lt nth len have "SkipSpace b i = i" by (subst SkipSpace.simps) simp
      ultimately show ?thesis by simp
    qed
  qed
qed

lemma same_from_SkipSpace: "same_from cur a b \<Longrightarrow> same_from (SkipSpace a cur) a b"
proof (cases "cur \<le> length a")
  case True
  assume "same_from cur a b"
  from same_from_mono [OF this SkipSpace_ge [OF True]] show ?thesis .
next
  case False
  assume s: "same_from cur a b"
  from False have "SkipSpace a cur = length a" by (simp add: SkipSpace_beyond)
  with same_from_end [OF s, of "length a"] show ?thesis by simp
qed

lemma mismatch_same:
  "same_from nx a b \<Longrightarrow> nx + i + length tok \<le> length a \<Longrightarrow>
     mismatch b nx tok i = mismatch a nx tok i"
proof (induction tok arbitrary: i)
  case Nil
  show ?case by simp
next
  case (Cons ch tok)
  from Cons.prems have "b ! (nx + i) = a ! (nx + i)"
    by (intro same_from_nth [of nx]) simp_all
  with Cons.IH [of "i + 1"] Cons.prems show ?case by simp
qed

lemma Consume_same:
  assumes "same_from cur a b"
  shows "Consume b cur tok = Consume a cur tok"
proof -
  let ?nx = "SkipSpace a cur"
  note len = same_from_length [OF assms]
  note s = SkipSpace_same [OF assms]
  show ?thesis
  proof (cases "length a - ?nx < length (runes_of_literal tok)")
    case True
    then show ?thesis by (simp add: Consume_def s len Let_def)
  next
    case False
    then have "?nx + 0 + length (runes_of_literal tok) \<le> length a"
      using SkipSpace_le [of a cur] by simp
    from mismatch_same [OF same_from_SkipSpace [OF assms] this]
    show ?thesis by (simp add: Consume_def s len Let_def)
  qed
qed

lemma same_from_Consume:
  assumes "same_from cur a b" "Consume a cur tok = (n, e)"
  shows "same_from n a b"
proof -
  have "SkipSpace a cur \<le> n"
    using assms(2) Consume_None [of a cur tok n] Consume_Some [of a cur tok n]
    by (cases e) auto
  from same_from_mono [OF same_from_SkipSpace [OF assms(1)] this] show ?thesis .
qed

lemma Hex2Num_same: "same_from cur a b \<Longrightarrow> Hex2Num b cur = Hex2Num a cur"
  by (auto simp: Hex2Num_def same_from_def)

lemma ScanHex_loop_same:
  "same_from cur a b \<Longrightarrow> ScanHex_loop b cur i val = ScanHex_loop a cur i val"
proof (induction a cur i val rule: ScanHex_loop.induct)
  case (1 a cur i val)
  have h: "Hex2Num b (cur + i) = Hex2Num a (cur + i)"
    using same_from_mono [OF "1.prems", of "cur + i"] by (intro Hex2Num_same) simp
  show ?case
  proof (cases "i < 4")
    case False
    then show ?thesis by (simp add: ScanHex_loop.simps [of _ cur i val])
  next
    case lt: True
    show ?thesis
    proof (cases "Hex2Num a (cur + i)")
      case (Inl err)
      with lt h show ?thesis by (simp add: ScanHex_loop.simps [of _ cur i val])
    next
      case (Inr d)
      with lt h "1.IH" [OF lt Inr "1.prems"] show ?thesis
        by (simp add: ScanHex_loop.simps [of _ cur i val])
    qed
  qed
qed

lemma ScanHex_same: "same_from cur a b \<Longrightarrow> ScanHex b cur = ScanHex a cur"
  by (simp add: ScanHex_def ScanHex_loop_same same_from_length)

lemma ParseEscape_same:
  assumes "same_from cur a b"
  shows "ParseEscape b cur = ParseEscape a cur"
proof (cases "cur < length a")
  case False
  with same_from_length [OF assms] show ?thesis by (simp add: ParseEscape_def)
next
  case True
  note len = same_from_length [OF assms]
  have nth: "b ! cur = a ! cur" using same_from_nth [OF assms _ True] by simp
  have "ScanHex b (cur + 1) = ScanHex a (cur + 1)"
    using same_from_mono [OF assms, of "cur + 1"] by (intro ScanHex_same) simp
  with True len nth show ?thesis by (simp add: ParseEscape_def Let_def)
qed

lemma ParseString_loop_same:
  "same_from nxt a b \<Longrightarrow> ParseString_loop b nxt val = ParseString_loop a nxt val"
proof (induction a nxt val rule: ParseString_loop.induct)
  case (1 a nxt val)
  note len = same_from_length [OF "1.prems"]
  show ?case
  proof (cases "nxt < length a")
    case False
    with len show ?thesis by (simp add: ParseString_loop.simps [of _ nxt val])
  next
    case lt: True
    have nth: "b ! nxt = a ! nxt" using same_from_nth [OF "1.prems" _ lt] by simp
    have lt': "nxt < length b" using lt len by simp
    have pe: "ParseEscape b (nxt + 1) = ParseEscape a (nxt + 1)"
      using same_from_mono [OF "1.prems", of "nxt + 1"] by (intro ParseEscape_same) simp
    consider (quote) "a ! nxt = 0x22"
      | (esc) "a ! nxt \<noteq> 0x22" "a ! nxt = 0x5C"
      | (lit) "a ! nxt \<noteq> 0x22" "a ! nxt \<noteq> 0x5C" "IsNoEscape (a ! nxt)"
      | (bad) "a ! nxt \<noteq> 0x22" "a ! nxt \<noteq> 0x5C" "\<not> IsNoEscape (a ! nxt)"
      by blast
    then show ?thesis
    proof cases
      case quote
      with lt lt' nth show ?thesis by (simp add: ParseString_loop.simps [of _ nxt val] Let_def)
    next
      case esc
      show ?thesis
      proof (cases "ParseEscape a (nxt + 1)")
        case (Inl err)
        with esc lt lt' nth pe show ?thesis
          by (simp add: ParseString_loop.simps [of _ nxt val] Let_def)
      next
        case (Inr p)
        obtain ch n' where p: "p = (ch, n')" by (cases p)
        from ParseEscape_advances [OF Inr [unfolded p]] have "nxt \<le> n'" by simp
        from "1.IH"(1) [OF lt refl _ _ Inr [unfolded p] refl] esc
          same_from_mono [OF "1.prems" this]
        have "ParseString_loop b n' (val @ [ch]) = ParseString_loop a n' (val @ [ch])" by simp
        with esc lt lt' nth pe Inr p show ?thesis
          by (simp add: ParseString_loop.simps [of _ nxt val] Let_def)
      qed
    next
      case lit
      from "1.IH"(2) [OF lt refl] lit same_from_mono [OF "1.prems", of "nxt + 1"]
      have "ParseString_loop b (nxt + 1) (val @ [a ! nxt])
          = ParseString_loop a (nxt + 1) (val @ [a ! nxt])"
        by simp
      with lit lt lt' nth show ?thesis
        by (simp add: ParseString_loop.simps [of _ nxt val] Let_def)
    next
      case bad
      with lt lt' nth show ?thesis by (simp add: ParseString_loop.simps [of _ nxt val] Let_def)
    qed
  qed
qed

lemma ParseString_same:
  assumes "same_from cur a b"
  shows "ParseString b cur = ParseString a cur"
proof -
  obtain n e where c: "Consume a cur [CHR 0x22] = (n, e)" by (cases "Consume a cur [CHR 0x22]")
  from ParseString_loop_same [OF same_from_Consume [OF assms c]] Consume_same [OF assms] c
  show ?thesis by (simp add: ParseString_def)
qed

lemma ScanInt_loop_same:
  "same_from p a b \<Longrightarrow> ScanInt_loop b p acc = ScanInt_loop a p acc"
proof (induction a p acc rule: ScanInt_loop.induct)
  case (1 a p acc)
  note len = same_from_length [OF "1.prems"]
  show ?case
  proof (cases "p < length a \<and> IsDigit (a ! p)")
    case True
    then have nth: "b ! p = a ! p" using same_from_nth [OF "1.prems", of p] by simp
    from "1.IH" [OF True] same_from_mono [OF "1.prems", of "p + 1"]
    have "ScanInt_loop b (p + 1) (acc * 10 + word_of_int (a ! p - 0x30))
        = ScanInt_loop a (p + 1) (acc * 10 + word_of_int (a ! p - 0x30))"
      by simp
    with True nth len show ?thesis by (simp add: ScanInt_loop.simps [of _ p acc])
  next
    case False
    have "\<not> (p < length b \<and> IsDigit (b ! p))"
      using False len same_from_nth [OF "1.prems", of p] by auto
    with False show ?thesis by (auto simp: ScanInt_loop.simps [of _ p acc])
  qed
qed

lemma ScanInt_same: "same_from p a b \<Longrightarrow> ScanInt b p = ScanInt a p"
  using same_from_nth [of p a b p]
  by (auto simp: ScanInt_def ScanInt_loop_same same_from_length)

lemma frac_loop_same:
  "same_from p a b \<Longrightarrow> frac_loop b p fr sc = frac_loop a p fr sc"
proof (induction a p fr sc rule: frac_loop.induct)
  case (1 a p fr sc)
  note len = same_from_length [OF "1.prems"]
  show ?case
  proof (cases "p < length a \<and> IsDigit (a ! p)")
    case True
    then have nth: "b ! p = a ! p" using same_from_nth [OF "1.prems", of p] by simp
    from "1.IH" [OF True] same_from_mono [OF "1.prems", of "p + 1"]
    have "frac_loop b (p + 1) (fadd fr (fdiv (f64_of_int (a ! p - 0x30)) sc))
          (fmul sc (f64_of_int 10))
        = frac_loop a (p + 1) (fadd fr (fdiv (f64_of_int (a ! p - 0x30)) sc))
          (fmul sc (f64_of_int 10))"
      by simp
    with True nth len show ?thesis by (simp add: frac_loop.simps [of _ p fr sc])
  next
    case False
    have "\<not> (p < length b \<and> IsDigit (b ! p))"
      using False len same_from_nth [OF "1.prems", of p] by auto
    with False show ?thesis by (auto simp: frac_loop.simps [of _ p fr sc])
  qed
qed

lemma frac_part_same:
  assumes "same_from p a b"
  shows "frac_part b p = frac_part a p"
proof -
  note len = same_from_length [OF assms]
  have n0: "p < length a \<Longrightarrow> b ! p = a ! p" using same_from_nth [OF assms, of p] by simp
  have n1: "p + 1 < length a \<Longrightarrow> b ! (p + 1) = a ! (p + 1)"
    using same_from_nth [OF assms, of "p + 1"] by simp
  have l: "frac_loop b (Suc p) x y = frac_loop a (Suc p) x y" for x y
    using same_from_mono [OF assms, of "Suc p"] by (intro frac_loop_same) simp
  show ?thesis
    using n0 n1 by (auto simp: frac_part_def len l)
qed

lemma sign_loop_same:
  "same_from p a b \<Longrightarrow> sign_loop ms b p b0 = sign_loop ms a p b0"
proof (induction ms a p b0 rule: sign_loop.induct)
  case (1 input nxt expneg)
  show ?case by simp
next
  case (2 sign val rest input nxt expneg)
  obtain n1 e1 where c: "Consume input nxt sign = (n1, e1)" by (cases "Consume input nxt sign")
  note c' = Consume_same [OF "2.prems", of sign, unfolded c]
  show ?case
  proof (cases e1)
    case None
    with c c' show ?thesis by simp
  next
    case (Some err)
    from "2.IH" [OF c [symmetric] Some same_from_Consume [OF "2.prems" c]] c c' Some
    show ?thesis by simp
  qed
qed

lemma exp_part_same:
  assumes "same_from p a b"
  shows "exp_part \<Gamma> b p isf = exp_part \<Gamma> a p isf"
proof (cases "p < length a \<and> (a ! p = 0x65 \<or> a ! p = 0x45)")
  case True
  note len = same_from_length [OF assms]
  have nth: "b ! p = a ! p" using same_from_nth [OF assms, of p] True by simp
  note s1 = same_from_mono [OF assms, of "p + 1"]
  obtain n1 expneg where sl: "sign_loop (sign_map (sign_range \<Gamma> (p + 1))) a (p + 1) False
      = (n1, expneg)"
    by (cases "sign_loop (sign_map (sign_range \<Gamma> (p + 1))) a (p + 1) False")
  from sign_loop_bounds [OF sl] True have "p + 1 \<le> n1" by simp
  then have "same_from n1 a b" using same_from_mono [OF assms, of n1] by simp
  from ScanInt_same [OF this] sign_loop_same [OF s1, of "sign_map (sign_range \<Gamma> (p + 1))" False]
    sl True nth len
  show ?thesis by (simp add: exp_part_def)
next
  case False
  have "\<not> (p < length b \<and> (b ! p = 0x65 \<or> b ! p = 0x45))"
    using False same_from_length [OF assms] same_from_nth [OF assms, of p] by auto
  with False show ?thesis by (auto simp: exp_part_def)
qed

lemma ParseNum_same:
  assumes "same_from cur a b"
  shows "ParseNum \<Gamma> b cur = ParseNum \<Gamma> a cur"
proof -
  note len = same_from_length [OF assms]
  obtain nxt suberr where c: "Consume a cur ''-'' = (nxt, suberr)"
    by (cases "Consume a cur ''-''")
  note c' = Consume_same [OF assms, of "''-''", unfolded c]
  note s0 = same_from_Consume [OF assms c]
  show ?thesis
  proof (cases "nxt < length a")
    case False
    with c c' len show ?thesis by (simp add: ParseNum_def Let_def)
  next
    case lt: True
    have nth: "b ! nxt = a ! nxt" using same_from_nth [OF s0 _ lt] by simp
    let ?whole = "\<lambda>input. if input ! nxt = 0x30 then Inr (0, nxt + 1) else ScanInt input nxt"
    have wh: "?whole b = ?whole a" using nth ScanInt_same [OF s0] by simp
    show ?thesis
    proof (cases "?whole a")
      case (Inl err)
      with c c' lt len wh show ?thesis by (simp add: ParseNum_def Let_def)
    next
      case (Inr r)
      obtain whole n1 where r: "r = (whole, n1)" by (cases r)
      have b1: "nxt < n1 \<and> n1 \<le> length a"
        using Inr r lt ScanInt_advances [of a nxt whole n1] by (auto split: if_splits)
      then have s1: "same_from n1 a b" using same_from_mono [OF s0, of n1] by simp
      note f = frac_part_same [OF s1]
      show ?thesis
      proof (cases "frac_part a n1")
        case (Inl err)
        with c c' lt len wh Inr r f show ?thesis by (simp add: ParseNum_def Let_def)
      next
        case fr: (Inr q)
        obtain isf fr n2 where q: "q = (isf, fr, n2)" by (cases q)
        from frac_part_bounds [OF fr [unfolded q]] b1 have "n1 \<le> n2" by simp
        then have s2: "same_from n2 a b" using same_from_mono [OF s1, of n2] by simp
        from exp_part_same [OF s2, of \<Gamma> isf] c c' lt len wh Inr r f fr q show ?thesis
          by (simp add: ParseNum_def Let_def)
      qed
    qed
  qed
qed

lemma literal_loop_same:
  "same_from cur a b \<Longrightarrow> literal_loop ms b cur nx = literal_loop ms a cur nx"
proof (induction ms a cur nx rule: literal_loop.induct)
  case (1 input cur nx)
  show ?case by simp
next
  case (2 literal val rest input cur nx)
  obtain n1 e1 where c: "Consume input cur literal = (n1, e1)"
    by (cases "Consume input cur literal")
  note c' = Consume_same [OF "2.prems", of literal, unfolded c]
  show ?case
  proof (cases e1)
    case None
    with c c' show ?thesis by simp
  next
    case (Some err)
    from "2.IH" [OF c [symmetric] Some "2.prems"] c c' Some show ?thesis by simp
  qed
qed

lemma ParseBoolNull_same:
  "same_from cur a b \<Longrightarrow> ParseBoolNull \<Gamma> b cur = ParseBoolNull \<Gamma> a cur"
  by (simp add: ParseBoolNull_def literal_loop_same)

lemma Parse_same:
  "same_from cur a b \<longrightarrow> ParseAny \<Gamma> b cur = ParseAny \<Gamma> a cur"
  "same_from cur a b \<longrightarrow> ParseArray \<Gamma> b cur = ParseArray \<Gamma> a cur"
  "same_from cur a b \<longrightarrow> ParseMap \<Gamma> b cur = ParseMap \<Gamma> a cur"
  "same_from cur a b \<longrightarrow> ParseKeyValue \<Gamma> b cur = ParseKeyValue \<Gamma> a cur"
  "same_from cur a b \<longrightarrow>
     ParseArrayLike \<Gamma> b cur itemParser bracket = ParseArrayLike \<Gamma> a cur itemParser bracket"
  "same_from nxt a b \<longrightarrow>
     ParseArrayLike_loop \<Gamma> b nxt itemParser bracket arr
       = ParseArrayLike_loop \<Gamma> a nxt itemParser bracket arr"
proof (induct \<Gamma> a cur and \<Gamma> a cur and \<Gamma> a cur and \<Gamma> a cur
    and \<Gamma> a cur itemParser bracket and \<Gamma> a nxt itemParser bracket arr
    rule: ParseAny_ParseArray_ParseMap_ParseKeyValue_ParseArrayLike_ParseArrayLike_loop.induct)
  case (1 \<Gamma> a cur)
  let ?nx = "SkipSpace a cur"
  show ?case
  proof
    assume s: "same_from cur a b"
    note len = same_from_length [OF s]
    note sk = SkipSpace_same [OF s]
    note s1 = same_from_SkipSpace [OF s]
    show "ParseAny \<Gamma> b cur = ParseAny \<Gamma> a cur"
    proof (cases "length a \<le> ?nx")
      case True
      with len sk show ?thesis by (simp add: ParseAny.simps [of _ _ cur])
    next
      case lt: False
      then have nth: "b ! ?nx = a ! ?nx" using same_from_nth [OF s1, of ?nx] by simp
      have lt': "\<not> length b \<le> ?nx" using lt len by simp
      show ?thesis
      proof (cases "a ! ?nx = 0x5B")
        case True
        from "1"(1) [OF refl lt refl True] s1
        have "ParseArray \<Gamma> b ?nx = ParseArray \<Gamma> a ?nx" by simp
        with True lt lt' nth sk show ?thesis by (simp add: ParseAny.simps [of _ _ cur])
      next
        case n1: False
        show ?thesis
        proof (cases "a ! ?nx = 0x7B")
          case True
          from "1"(2) [OF refl lt refl n1 True] s1
          have "ParseMap \<Gamma> b ?nx = ParseMap \<Gamma> a ?nx" by simp
          with True n1 lt lt' nth sk show ?thesis by (simp add: ParseAny.simps [of _ _ cur])
        next
          case n2: False
          with n1 lt lt' nth sk ParseString_same [OF s1] ParseNum_same [OF s1, of \<Gamma>]
            ParseBoolNull_same [OF s1, of \<Gamma>]
          show ?thesis by (simp add: ParseAny.simps [of _ _ cur] Let_def)
        qed
      qed
    qed
  qed
next
  case (2 \<Gamma> a cur)
  then show ?case by (simp add: ParseArray.simps)
next
  case (3 \<Gamma> a cur)
  then show ?case by (simp add: ParseMap.simps)
next
  case (4 \<Gamma> a cur)
  show ?case
  proof
    assume s: "same_from cur a b"
    note ps = ParseString_same [OF s]
    show "ParseKeyValue \<Gamma> b cur = ParseKeyValue \<Gamma> a cur"
    proof (cases "ParseString a cur")
      case (Inl err)
      with ps show ?thesis by (simp add: ParseKeyValue.simps)
    next
      case (Inr r)
      obtain key n0 where r: "r = (key, n0)" by (cases r)
      from ParseString_advances [OF Inr [unfolded r]] have "cur \<le> n0" by simp
      note s0 = same_from_mono [OF s this]
      obtain n1 e1 where c: "Consume a n0 '':'' = (n1, e1)" by (cases "Consume a n0 '':''")
      note c' = Consume_same [OF s0, of "'':''", unfolded c]
      show ?thesis
      proof (cases e1)
        case None
        from "4" [OF Inr [unfolded r] refl c [symmetric] None] same_from_Consume [OF s0 c]
        have "ParseAny \<Gamma> b n1 = ParseAny \<Gamma> a n1" by simp
        with Inr r ps c c' None show ?thesis by (simp add: ParseKeyValue.simps)
      next
        case (Some err)
        with Inr r ps c c' show ?thesis by (simp add: ParseKeyValue.simps)
      qed
    qed
  qed
next
  case (5 \<Gamma> a cur itemParser bracket)
  show ?case
  proof
    assume s: "same_from cur a b"
    obtain n0 e0 where c0: "Consume a cur (fst bracket) = (n0, e0)"
      by (cases "Consume a cur (fst bracket)")
    note c0' = Consume_same [OF s, of "fst bracket", unfolded c0]
    note s0 = same_from_Consume [OF s c0]
    obtain n1 e1 where c1: "Consume a n0 (snd bracket) = (n1, e1)"
      by (cases "Consume a n0 (snd bracket)")
    note c1' = Consume_same [OF s0, of "snd bracket", unfolded c1]
    note s1 = same_from_Consume [OF s0 c1]
    show "ParseArrayLike \<Gamma> b cur itemParser bracket = ParseArrayLike \<Gamma> a cur itemParser bracket"
    proof (cases e0)
      case (Some err)
      with c0 c0' show ?thesis by (simp add: ParseArrayLike.simps)
    next
      case n: None
      show ?thesis
      proof (cases e1)
        case None
        with c0 c0' c1 c1' n show ?thesis by (simp add: ParseArrayLike.simps)
      next
        case (Some suberr)
        from "5" [OF c0 [symmetric] n c1 [symmetric] Some] s1
        have "ParseArrayLike_loop \<Gamma> b n1 itemParser bracket []
          = ParseArrayLike_loop \<Gamma> a n1 itemParser bracket []" by simp
        with c0 c0' c1 c1' n Some show ?thesis by (simp add: ParseArrayLike.simps)
      qed
    qed
  qed
next
  case (6 \<Gamma> a nxt itemParser bracket arr)
  let ?item = "\<lambda>input. case itemParser of
      ParseAny_func \<Rightarrow> ParseAny \<Gamma> input nxt
    | ParseKeyValue_func \<Rightarrow> ParseKeyValue \<Gamma> input nxt"
  note ua = ParseArrayLike_loop.simps [of \<Gamma> a nxt itemParser bracket arr]
  note ub = ParseArrayLike_loop.simps [of \<Gamma> b nxt itemParser bracket arr]
  show ?case
  proof
    assume s: "same_from nxt a b"
    have it: "?item b = ?item a"
      using "6"(1,2) s by (cases itemParser) simp_all
    show "ParseArrayLike_loop \<Gamma> b nxt itemParser bracket arr
        = ParseArrayLike_loop \<Gamma> a nxt itemParser bracket arr"
    proof (cases "?item a")
      case (Inl err)
      with it show ?thesis by (simp add: ua ub)
    next
      case (Inr r)
      obtain subval n1 where r: "r = (subval, n1)" by (cases r)
      have "nxt \<le> n1"
        using Inr r ParseAny_advances [of \<Gamma> a nxt subval n1]
          ParseKeyValue_advances [of \<Gamma> a nxt subval n1]
        by (cases itemParser) simp_all
      note s1 = same_from_mono [OF s this]
      obtain n2 e2 where c2: "Consume a n1 '','' = (n2, e2)" by (cases "Consume a n1 '',''")
      note c2' = Consume_same [OF s1, of "'',''", unfolded c2]
      note s2 = same_from_Consume [OF s1 c2]
      show ?thesis
      proof (cases e2)
        case None
        from "6"(3) [OF Inr [unfolded r] refl c2 [symmetric] None] s2
        have "ParseArrayLike_loop \<Gamma> b n2 itemParser bracket (arr @ [subval])
          = ParseArrayLike_loop \<Gamma> a n2 itemParser bracket (arr @ [subval])" by simp
        with Inr r it c2 c2' None show ?thesis by (simp add: ua ub)
      next
        case (Some suberr)
        with Inr r it c2 c2' Consume_same [OF s2, of "snd bracket"] show ?thesis
          by (simp add: ua ub)
      qed
    qed
  qed
qed

subsection \<open>Termination and results\<close>

fun is_DecodingError :: "error \<Rightarrow> bool" where
  "is_DecodingError (DecodingError pos ch m) = True"
| "is_DecodingError e = False"

lemma ReadCode_error: "ReadCode buf cur = Inl e \<Longrightarrow> is_DecodingError e"
  by (auto simp: ReadCode_def leading_switch_def Let_def split: if_splits)

lemma Decode_loop_error: "Decode_loop input cur out = Inl e \<Longrightarrow> is_DecodingError e"
proof (induction input cur out rule: Decode_loop.induct)
  case (1 input cur out)
  note eq = "1.prems" [unfolded Decode_loop.simps [of input cur out]]
  show ?case
  proof (cases "cur < length input")
    case False
    with eq show ?thesis by simp
  next
    case lt: True
    show ?thesis
    proof (cases "ReadCode input cur")
      case (Inl err)
      with eq lt have "e = err" by simp
      with ReadCode_error [OF Inl] show ?thesis by simp
    next
      case (Inr r)
      obtain code nxt where r: "r = (code, nxt)" by (cases r)
      from eq lt Inr r have "Decode_loop input nxt (out @ [code]) = Inl e" by simp
      with "1.IH" [OF lt Inr [unfolded r] refl] show ?thesis by simp
    qed
  qed
qed

lemma ParseRunes_error: "ParseRunes \<Gamma> input = Inl e \<Longrightarrow> is_ParseError e"
  using Parse_results(1) [of \<Gamma> input 0]
  by (auto simp: ParseRunes_def Let_def split: sum.splits if_splits)

lemma Parse_error: "Parse \<Gamma> bs = Inl e \<Longrightarrow> is_ParseError e \<or> is_DecodingError e"
  by (auto simp: Parse_def DecodeString_def Decode_def split: sum.splits
      dest: Decode_loop_error ParseRunes_error)

text \<open>
  Claim C8.  The recursion of the productions is well founded: every argument lies in
  the domain of the mutually recursive functions, so every call returns.  What
  \<open>ParseRunes\<close> returns is a value or a \<open>ParseError\<close>, and \<open>Parse\<close> a value, a
  \<open>ParseError\<close> or a \<open>DecodingError\<close>, never a run-time panic.  A production or
  scanner that succeeds returns a position strictly after the one it was called at,
  and within the input.  A production called at \<open>cur\<close> reads nothing before
  \<open>cur\<close>: it returns the same on every input of the same length that agrees from
  \<open>cur\<close> on.
\<close>

theorem Parse_terminates:
  "ParseAny_ParseArray_ParseMap_ParseKeyValue_ParseArrayLike_ParseArrayLike_loop_dom
     (Inl (Inl (\<Gamma>, input, cur))) \<and>
   ParseAny_ParseArray_ParseMap_ParseKeyValue_ParseArrayLike_ParseArrayLike_loop_dom
     (Inl (Inr (Inl (\<Gamma>, input, cur)))) \<and>
   ParseAny_ParseArray_ParseMap_ParseKeyValue_ParseArrayLike_ParseArrayLike_loop_dom
     (Inl (Inr (Inr (\<Gamma>, input, cur)))) \<and>
   ParseAny_ParseArray_ParseMap_ParseKeyValue_ParseArrayLike_ParseArrayLike_loop_dom
     (Inr (Inl (\<Gamma>, input, cur))) \<and>
   ParseAny_ParseArray_ParseMap_ParseKeyValue_ParseArrayLike_ParseArrayLike_loop_dom
     (Inr (Inr (Inl (\<Gamma>, input, cur, itemParser, bracket)))) \<and>
   ParseAny_ParseArray_ParseMap_ParseKeyValue_ParseArrayLike_ParseArrayLike_loop_dom
     (Inr (Inr (Inr (\<Gamma>, input, cur, itemParser, bracket, arr)))) \<and>
   ((\<exists>val. ParseRunes \<Gamma> input = Inr val) \<or>
    (\<exists>pos m. ParseRunes \<Gamma> input = Inl (ParseError pos m))) \<and>
   ((\<exists>val. Parse \<Gamma> bs = Inr val) \<or>
    (\<exists>pos m. Parse \<Gamma> bs = Inl (ParseError pos m)) \<or>
    (\<exists>pos ch m. Parse \<Gamma> bs = Inl (DecodingError pos ch m))) \<and>
   (ParseAny \<Gamma> input cur = Inr (v, n) \<longrightarrow> cur < n \<and> n \<le> length input) \<and>
   (ParseArray \<Gamma> input cur = Inr (v, n) \<longrightarrow> cur < n \<and> n \<le> length input) \<and>
   (ParseMap \<Gamma> input cur = Inr (v, n) \<longrightarrow> cur < n \<and> n \<le> length input) \<and>
   (ParseKeyValue \<Gamma> input cur = Inr (v, n) \<longrightarrow> cur < n \<and> n \<le> length input) \<and>
   (ParseArrayLike \<Gamma> input cur itemParser bracket = Inr (v, n) \<and> fst bracket \<noteq> [] \<longrightarrow>
      cur < n \<and> n \<le> length input) \<and>
   (ParseArrayLike_loop \<Gamma> input cur itemParser bracket arr = Inr (v, n) \<longrightarrow>
      cur < n \<and> n \<le> length input) \<and>
   (ParseString input cur = Inr (s, n) \<longrightarrow> cur < n \<and> n \<le> length input) \<and>
   (ParseNum \<Gamma> input cur = Inr (v, n) \<longrightarrow> cur < n \<and> n \<le> length input) \<and>
   (ParseBoolNull \<Gamma> input cur = Inr (v, n) \<longrightarrow> cur < n \<and> n \<le> length input) \<and>
   (ParseEscape input cur = Inr (ch, n) \<longrightarrow> cur < n \<and> n \<le> length input) \<and>
   (ScanInt input cur = Inr (w, n) \<longrightarrow> cur < n \<and> n \<le> length input) \<and>
   (Consume input cur tok = (n, None) \<and> tok \<noteq> [] \<longrightarrow> cur < n \<and> n \<le> length input) \<and>
   (ReadCode bs cur = Inr (code, n) \<longrightarrow> cur < n \<and> n \<le> length bs) \<and>
   (same_from cur input input' \<longrightarrow>
      ParseAny \<Gamma> input' cur = ParseAny \<Gamma> input cur \<and>
      ParseArray \<Gamma> input' cur = ParseArray \<Gamma> input cur \<and>
      ParseMap \<Gamma> input' cur = ParseMap \<Gamma> input cur \<and>
      ParseKeyValue \<Gamma> input' cur = ParseKeyValue \<Gamma> input cur \<and>
      ParseArrayLike \<Gamma> input' cur itemParser bracket
        = ParseArrayLike \<Gamma> input cur itemParser bracket \<and>
      ParseString input' cur = ParseString input cur \<and>
      ParseNum \<Gamma> input' cur = ParseNum \<Gamma> input cur \<and>
      ParseBoolNull \<Gamma> input' cur = ParseBoolNull \<Gamma> input cur)"
proof -
  have loc: "ParseAny \<Gamma> input' cur = ParseAny \<Gamma> input cur \<and>
      ParseArray \<Gamma> input' cur = ParseArray \<Gamma> input cur \<and>
      ParseMap \<Gamma> input' cur = ParseMap \<Gamma> input cur \<and>
      ParseKeyValue \<Gamma> input' cur = ParseKeyValue \<Gamma> input cur \<and>
      ParseArrayLike \<Gamma> input' cur itemParser bracket
        = ParseArrayLike \<Gamma> input cur itemParser bracket \<and>
      ParseString input' cur = ParseString input cur \<and>
      ParseNum \<Gamma> input' cur = ParseNum \<Gamma> input cur \<and>
      ParseBoolNull \<Gamma> input' cur = ParseBoolNull \<Gamma> input cur"
    if s: "same_from cur input input'"
    using Parse_same(1-5) [of cur input input' \<Gamma>] s
      ParseString_same [OF s] ParseNum_same [OF s] ParseBoolNull_same [OF s]
    by simp
  have r: "(\<exists>val. ParseRunes \<Gamma> input = Inr val) \<or>
    (\<exists>pos m. ParseRunes \<Gamma> input = Inl (ParseError pos m))"
  proof (cases "ParseRunes \<Gamma> input")
    case (Inl e)
    from ParseRunes_error [OF Inl] obtain pos m where "e = ParseError pos m" by (cases e) auto
    with Inl show ?thesis by simp
  next
    case (Inr val)
    then show ?thesis by simp
  qed
  have p: "(\<exists>val. Parse \<Gamma> bs = Inr val) \<or>
    (\<exists>pos m. Parse \<Gamma> bs = Inl (ParseError pos m)) \<or>
    (\<exists>pos ch m. Parse \<Gamma> bs = Inl (DecodingError pos ch m))"
  proof (cases "Parse \<Gamma> bs")
    case (Inl e)
    from Parse_error [OF Inl] have "(\<exists>pos m. e = ParseError pos m) \<or>
        (\<exists>pos ch m. e = DecodingError pos ch m)"
      by (cases e) auto
    with Inl show ?thesis by auto
  next
    case (Inr val)
    then show ?thesis by simp
  qed
  have esc: "cur < n \<and> n \<le> length input" if "ParseEscape input cur = Inr (ch, n)"
    using ParseEscape_advances [OF that] ParseEscape_le [OF that] by simp
  have al: "cur < n \<and> n \<le> length input"
    if "ParseArrayLike \<Gamma> input cur itemParser bracket = Inr (v, n) \<and> fst bracket \<noteq> []"
    using that ParseArrayLike_advances [of bracket \<Gamma> input cur itemParser v n] by simp
  have co: "cur < n \<and> n \<le> length input" if "Consume input cur tok = (n, None) \<and> tok \<noteq> []"
    using that Consume_advances [of input cur tok n] by simp
  show ?thesis
    using Parse_dom [of \<Gamma> input cur] Parse_dom(5) [of \<Gamma> input cur itemParser bracket]
      Parse_dom(6) [of \<Gamma> input cur itemParser bracket arr] r p
      ParseAny_advances [of \<Gamma> input cur v n] ParseArray_advances [of \<Gamma> input cur v n]
      ParseMap_advances [of \<Gamma> input cur v n] ParseKeyValue_advances [of \<Gamma> input cur v n]
      ParseArrayLike_loop_advances [of \<Gamma> input cur itemParser bracket arr v n]
      ParseString_advances [of input cur s n] ParseNum_advances [of \<Gamma> input cur v n]
      ParseBoolNull_advances [of \<Gamma> input cur v n] ScanInt_advances [of input cur w n]
      ReadCode_advances [of bs cur code n] esc al co loc
    by blast
qed

theorem Parse_terminates_witness:
  "ParseAny example_env (runes_of_literal ''[1]'') 0 = Inr (JArray [JInt 1], 3) \<and>
   (0::nat) < 3 \<and> 3 \<le> length (runes_of_literal ''[1]'') \<and>
   ParseString (runes_of_literal ''\"a\" '') 0 = Inr ([0x61], 3) \<and>
   3 \<le> length (runes_of_literal ''\"a\" '') \<and>
   ParseAny example_env (runes_of_literal ''x 7'') 1
     = ParseAny example_env (runes_of_literal ''[ 7'') 1"
proof -
  note T = Parse_terminates [of example_env "runes_of_literal ''[1]''" 0 ParseAny_func
      "(''['', '']'')" "[]" "[]" "JArray [JInt 1]" 3]
  have a: "ParseAny example_env (runes_of_literal ''[1]'') 0 = Inr (JArray [JInt 1], 3)"
    by (simp add: parse_eval example_env_def)
  have b: "(0::nat) < 3 \<and> 3 \<le> length (runes_of_literal ''[1]'')"
    by (rule T [THEN conjunct2, THEN conjunct2, THEN conjunct2, THEN conjunct2,
          THEN conjunct2, THEN conjunct2, THEN conjunct2, THEN conjunct2,
          THEN conjunct1, THEN mp, OF a])
  have c: "ParseString (runes_of_literal ''\"a\" '') 0 = Inr ([0x61], 3)"
    by (simp add: parse_eval)
  have d: "(0::nat) < 3 \<and> 3 \<le> length (runes_of_literal ''\"a\" '')"
    by (rule Parse_terminates [of example_env "runes_of_literal ''\"a\" ''" 0 ParseAny_func
          "(''['', '']'')" "[]" "[]" JNull 3 "[0x61]",
          THEN conjunct2, THEN conjunct2, THEN conjunct2, THEN conjunct2,
          THEN conjunct2, THEN conjunct2, THEN conjunct2, THEN conjunct2,
          THEN conjunct2, THEN conjunct2, THEN conjunct2, THEN conjunct2,
          THEN conjunct2, THEN conjunct2, THEN conjunct1, THEN mp, OF c])
  have sf: "same_from 1 (runes_of_literal ''[ 7'') (runes_of_literal ''x 7'')"
    unfolding same_from_def
  proof (intro conjI allI impI)
    show "length (runes_of_literal ''[ 7'') = length (runes_of_literal ''x 7'')"
      by (simp add: runes_of_literal_def)
    fix i :: nat
    assume "1 \<le> i \<and> i < length (runes_of_literal ''[ 7'')"
    then have "i = 1 \<or> i = 2" by (auto simp: runes_of_literal_def)
    then show "runes_of_literal ''[ 7'' ! i = runes_of_literal ''x 7'' ! i"
      by (auto simp: runes_of_literal_def)
  qed
  have e: "ParseAny example_env (runes_of_literal ''x 7'') 1
     = ParseAny example_env (runes_of_literal ''[ 7'') 1"
    by (rule Parse_terminates [where input = "runes_of_literal ''[ 7''"
            and input' = "runes_of_literal ''x 7''" and cur = 1 and \<Gamma> = example_env,
          THEN conjunct2, THEN conjunct2, THEN conjunct2, THEN conjunct2,
          THEN conjunct2, THEN conjunct2, THEN conjunct2, THEN conjunct2,
          THEN conjunct2, THEN conjunct2, THEN conjunct2, THEN conjunct2,
          THEN conjunct2, THEN conjunct2, THEN conjunct2, THEN conjunct2,
          THEN conjunct2, THEN conjunct2, THEN conjunct2, THEN conjunct2,
          THEN conjunct2, THEN mp, OF sf, THEN conjunct1])
  show ?thesis using a b c d e by simp
qed

subsection \<open>Text after a value\<close>


fun is_number :: "JsonValue \<Rightarrow> bool" where
  "is_number (JInt i) = True"
| "is_number (JFloat x) = True"
| "is_number v = False"






















lemma ParseNum_is_number: "ParseNum \<Gamma> w cur = Inr (v, n) \<Longrightarrow> is_number v"
  by (auto simp: ParseNum_def Let_def split: if_splits prod.splits sum.splits)


subsection \<open>Empty input and text after the value\<close>











subsection \<open>Integer or float\<close>

lemma ScanInt_loop_digits:
  "ScanInt_loop input p acc = (v, n) \<Longrightarrow> p \<le> j \<Longrightarrow> j < n \<Longrightarrow> IsDigit (input ! j)"
proof (induction input p acc rule: ScanInt_loop.induct)
  case (1 input p acc)
  show ?case
  proof (cases "p < length input \<and> IsDigit (input ! p)")
    case True
    with "1.prems"(1)
    have l: "ScanInt_loop input (p + 1) (acc * 10 + word_of_int (input ! p - 0x30)) = (v, n)"
      by (subst (asm) ScanInt_loop.simps) simp
    show ?thesis
    proof (cases "j = p")
      case True
      with \<open>p < length input \<and> IsDigit (input ! p)\<close> show ?thesis by simp
    next
      case False
      with "1.prems"(2) have "p + 1 \<le> j" by simp
      from "1.IH" [OF True l this "1.prems"(3)] show ?thesis .
    qed
  next
    case False
    with "1.prems"(1) have "n = p" by (subst (asm) ScanInt_loop.simps) simp
    with "1.prems"(2,3) show ?thesis by simp
  qed
qed

lemma frac_part_cases:
  assumes "frac_part input p = Inr (isf, fr, n)"
  shows "(isf \<and> p < length input \<and> input ! p = 0x2E \<and> p < n) \<or> (\<not> isf \<and> n = p)"
proof (cases "p < length input \<and> input ! p = 0x2E")
  case True
  with assms have "isf" and "p + 1 < length input"
    and "frac_loop input (p + 1) (f64_of_int 0) (f64_of_int 10) = (fr, n)"
    by (auto simp: frac_part_def split: if_splits prod.splits)
  with frac_loop_bounds [of input "p + 1" "f64_of_int 0" "f64_of_int 10" fr n] True
  show ?thesis by simp
next
  case False
  with assms show ?thesis by (auto simp: frac_part_def split: if_splits)
qed

lemma exp_part_cases:
  assumes "exp_part \<Gamma> input p isf = Inr (isf', he, ex, n)"
  shows "(isf' \<and> he \<and> p < length input \<and> (input ! p = 0x65 \<or> input ! p = 0x45) \<and> p < n) \<or>
    (isf' = isf \<and> \<not> he \<and> n = p)"
proof (cases "p < length input \<and> (input ! p = 0x65 \<or> input ! p = 0x45)")
  case True
  obtain n1 expneg where sl: "sign_loop (sign_map (sign_range \<Gamma> (p + 1))) input (p + 1) False
      = (n1, expneg)"
    by (cases "sign_loop (sign_map (sign_range \<Gamma> (p + 1))) input (p + 1) False")
  from assms True sl obtain expnum where si: "ScanInt input n1 = Inr (expnum, n)"
    and r: "isf'" "he"
    by (auto simp: exp_part_def split: if_splits sum.splits)
  from sign_loop_bounds [OF sl] True have "p + 1 \<le> n1" by simp
  with ScanInt_advances [OF si] have "p < n" by simp
  with True r show ?thesis by simp
next
  case False
  with assms show ?thesis by (auto simp: exp_part_def split: if_splits)
qed

lemma ParseNum_lexical:
  assumes "ParseNum \<Gamma> input cur = Inr (v, n)"
  shows "(\<exists>i. v = JInt i) \<longleftrightarrow>
    (\<forall>j. SkipSpace input cur \<le> j \<and> j < n \<longrightarrow>
       input ! j \<noteq> 0x2E \<and> input ! j \<noteq> 0x65 \<and> input ! j \<noteq> 0x45)"
proof -
  let ?s = "SkipSpace input cur"
  obtain nxt suberr where c: "Consume input cur ''-'' = (nxt, suberr)"
    by (cases "Consume input cur ''-''")
  from assms c have lt: "nxt < length input"
    by (auto simp: ParseNum_def Let_def split: if_splits)
  from assms c lt obtain whole n1 isf fr n2 isf' he ex where
    wh: "(if input ! nxt = 0x30 then Inr (0, nxt + 1) else ScanInt input nxt) = Inr (whole, n1)"
    and f: "frac_part input n1 = Inr (isf, fr, n2)"
    and e: "exp_part \<Gamma> input n2 isf = Inr (isf', he, ex, n)"
    by (auto simp: ParseNum_def Let_def split: if_splits sum.splits prod.splits)
  from assms c lt wh f e have v: "(\<exists>i. v = JInt i) \<longleftrightarrow> \<not> isf'"
    by (auto simp: ParseNum_def Let_def split: if_splits)
  have sign: "(nxt = ?s) \<or> (nxt = ?s + 1 \<and> input ! ?s = 0x2D)"
  proof (cases suberr)
    case None
    with c Consume_None [of input cur "''-''" nxt] Consume_first_rune [of input cur "CHR ''-''" "[]" nxt]
    show ?thesis by simp
  next
    case (Some err)
    with c Consume_Some [of input cur "''-''" nxt err] show ?thesis by simp
  qed
  have dig: "IsDigit (input ! j)" if "nxt \<le> j" "j < n1" for j
  proof (cases "input ! nxt = 0x30")
    case True
    with wh that have "j = nxt" by simp
    with True show ?thesis by (simp add: IsDigit_def)
  next
    case False
    with wh have "ScanInt_loop input nxt 0 = (whole, n1)"
      by (auto simp: ScanInt_def split: if_splits)
    from ScanInt_loop_digits [OF this that] show ?thesis .
  qed
  have b1: "nxt < n1"
    using wh lt ScanInt_advances [of input nxt whole n1] by (auto split: if_splits)
  have b0: "?s \<le> nxt" using sign by auto
  have A: "input ! j \<noteq> 0x2E \<and> input ! j \<noteq> 0x65 \<and> input ! j \<noteq> 0x45"
    if "?s \<le> j" "j < n1" for j
  proof (cases "nxt \<le> j")
    case True
    from dig [OF True that(2)] show ?thesis by (auto simp: IsDigit_def)
  next
    case False
    with that(1) sign have "j = ?s" "input ! ?s = 0x2D" by auto
    then show ?thesis by simp
  qed
  note fc = frac_part_cases [OF f]
  note ec = exp_part_cases [OF e]
  show ?thesis
  proof (cases isf')
    case False
    with ec have "isf' = isf" "n = n2" by auto
    with False fc have "n = n1" by auto
    with A v False show ?thesis by simp
  next
    case True
    have "\<exists>j. ?s \<le> j \<and> j < n \<and> (input ! j = 0x2E \<or> input ! j = 0x65 \<or> input ! j = 0x45)"
    proof (cases isf)
      case t: True
      with fc have "input ! n1 = 0x2E" "n1 < n2" by auto
      moreover from ec have "n2 \<le> n" by auto
      ultimately show ?thesis using b0 b1 by (intro exI [of _ n1]) simp
    next
      case False
      with fc have n2: "n2 = n1" by auto
      from ec True False have "input ! n2 = 0x65 \<or> input ! n2 = 0x45" "n2 < n" by auto
      then show ?thesis using b0 b1 n2 by (intro exI [of _ n2]) auto
    qed
    with v True show ?thesis by blast
  qed
qed

lemma ParseAny_number:
  assumes "SkipSpace input cur < length input"
    and "IsDigit (input ! SkipSpace input cur) \<or> input ! SkipSpace input cur = 0x2D"
  shows "ParseAny \<Gamma> input cur = ParseNum \<Gamma> input (SkipSpace input cur)"
  using assms by (auto simp: ParseAny.simps [of _ input cur] Let_def IsDigit_def)

text \<open>
  Claim C2.  A number that \<open>ParseNum\<close> reads, from the first code point after the
  whitespace up to the position it returns, is an \<open>int64\<close> or a \<open>float64\<close>; it
  is an \<open>int64\<close> exactly when none of its code points is \<open>.\<close>, \<open>e\<close> or \<open>E\<close>,
  that is when it has no fractional part and no exponent.  \<open>ParseAny\<close> reads a
  number with \<open>ParseNum\<close> when the value begins with a digit or \<open>-\<close>.  The
  magnitude plays no part: an integer of more than 64 bits is still an \<open>int64\<close>,
  wrapped around, and \<open>1.0\<close> is a \<open>float64\<close>.  In the example, \<open>Fin False 5 (- 1)\<close>
  is \<open>2.5\<close> and \<open>Fin True 75 2\<close> is \<open>-300\<close>, for a \<open>Pow10\<close> with
  \<open>Pow10 2 = 100\<close>.
\<close>

theorem ParseNum_integer_or_float:
  "(ParseNum \<Gamma> input cur = Inr (v, n) \<longrightarrow>
      ((\<exists>i. v = JInt i) \<or> (\<exists>x. v = JFloat x)) \<and>
      ((\<exists>i. v = JInt i) \<longleftrightarrow>
         (\<forall>j. SkipSpace input cur \<le> j \<and> j < n \<longrightarrow>
            input ! j \<noteq> 0x2E \<and> input ! j \<noteq> 0x65 \<and> input ! j \<noteq> 0x45)) \<and>
      ((\<exists>x. v = JFloat x) \<longleftrightarrow>
         (\<exists>j. SkipSpace input cur \<le> j \<and> j < n \<and>
            (input ! j = 0x2E \<or> input ! j = 0x65 \<or> input ! j = 0x45)))) \<and>
   (SkipSpace input cur < length input \<and>
    (IsDigit (input ! SkipSpace input cur) \<or> input ! SkipSpace input cur = 0x2D) \<longrightarrow>
      ParseAny \<Gamma> input cur = ParseNum \<Gamma> input (SkipSpace input cur)) \<and>
   ParseRunes \<Gamma> (runes_of_literal ''18446744073709551617'') = Inr (JInt 1) \<and>
   ParseRunes \<Gamma> (runes_of_literal ''9223372036854775808'')
     = Inr (JInt (- 9223372036854775808)) \<and>
   ParseRunes \<Gamma> (runes_of_literal ''1.0'') = Inr (JFloat (f64_of_int 1)) \<and>
   (Pow10 \<Gamma> 2 = f64_of_int 100 \<longrightarrow>
      Parse \<Gamma> (text_bytes ''[1,2.5,-3e2]'')
        = Inr (JArray [JInt 1, JFloat (Fin False 5 (- 1)), JFloat (Fin True 75 2)])) \<and>
   fdiv (f64_of_int 5) (f64_of_int 2) = Fin False 5 (- 1) \<and>
   fneg (f64_of_int 300) = Fin True 75 2"
proof (intro conjI impI)
  assume r: "ParseNum \<Gamma> input cur = Inr (v, n)"
  from ParseNum_is_number [OF r] show k: "(\<exists>i. v = JInt i) \<or> (\<exists>x. v = JFloat x)"
    by (cases v) simp_all
  show l: "(\<exists>i. v = JInt i) \<longleftrightarrow>
         (\<forall>j. SkipSpace input cur \<le> j \<and> j < n \<longrightarrow>
            input ! j \<noteq> 0x2E \<and> input ! j \<noteq> 0x65 \<and> input ! j \<noteq> 0x45)"
    by (rule ParseNum_lexical [OF r])
  have "(\<exists>x. v = JFloat x) \<longleftrightarrow> \<not> (\<exists>i. v = JInt i)" using k by auto
  then show "(\<exists>x. v = JFloat x) \<longleftrightarrow>
         (\<exists>j. SkipSpace input cur \<le> j \<and> j < n \<and>
            (input ! j = 0x2E \<or> input ! j = 0x65 \<or> input ! j = 0x45))"
    unfolding l by blast
next
  assume "SkipSpace input cur < length input \<and>
    (IsDigit (input ! SkipSpace input cur) \<or> input ! SkipSpace input cur = 0x2D)"
  then show "ParseAny \<Gamma> input cur = ParseNum \<Gamma> input (SkipSpace input cur)"
    by (intro ParseAny_number) simp_all
next
  show "ParseRunes \<Gamma> (runes_of_literal ''18446744073709551617'') = Inr (JInt 1)"
    by (subst ParseRunes_fixed_order) (simp add: parse_eval f64_eval)
next
  show "ParseRunes \<Gamma> (runes_of_literal ''9223372036854775808'')
     = Inr (JInt (- 9223372036854775808))"
    by (subst ParseRunes_fixed_order) (simp add: parse_eval f64_eval)
next
  show "ParseRunes \<Gamma> (runes_of_literal ''1.0'') = Inr (JFloat (f64_of_int 1))"
    by (subst ParseRunes_fixed_order) (simp add: parse_eval f64_eval)
next
  assume p: "Pow10 \<Gamma> 2 = f64_of_int 100"
  have d: "DecodeString (text_bytes ''[1,2.5,-3e2]'') = Inr (runes_of_literal ''[1,2.5,-3e2]'')"
    by (simp add: decode_eval text_bytes_def runes_of_literal_def)
  have "ParseRunes \<Gamma> (runes_of_literal ''[1,2.5,-3e2]'')
      = Inr (JArray [JInt 1, JFloat (Fin False 5 (- 1)), JFloat (Fin True 75 2)])"
    using p by (subst ParseRunes_fixed_order) (simp add: parse_eval f64_eval)
  then show "Parse \<Gamma> (text_bytes ''[1,2.5,-3e2]'')
        = Inr (JArray [JInt 1, JFloat (Fin False 5 (- 1)), JFloat (Fin True 75 2)])"
    by (simp only: Parse_ascii [OF d])
next
  show "fdiv (f64_of_int 5) (f64_of_int 2) = Fin False 5 (- 1)"
    by (simp add: f64_eval)
next
  show "fneg (f64_of_int 300) = Fin True 75 2"
    by (simp add: f64_eval)
qed

theorem ParseNum_integer_or_float_witness:
  "Pow10 example_env 2 = f64_of_int 100 \<and>
   Parse example_env (text_bytes ''[1,2.5,-3e2]'')
     = Inr (JArray [JInt 1, JFloat (Fin False 5 (- 1)), JFloat (Fin True 75 2)]) \<and>
   ParseNum example_env (runes_of_literal '' 25'') 0 = Inr (JInt 25, 3) \<and>
   ParseAny example_env (runes_of_literal '' 25'') 0 = Inr (JInt 25, 3) \<and>
   (\<exists>i. JInt 25 = JInt i)"
proof -
  have p: "Pow10 example_env 2 = f64_of_int 100"
    by (simp add: example_env_def f64_eval)
  note T = ParseNum_integer_or_float [of example_env "runes_of_literal '' 25''" 0 "JInt 25" 3]
  have 1: "Parse example_env (text_bytes ''[1,2.5,-3e2]'')
     = Inr (JArray [JInt 1, JFloat (Fin False 5 (- 1)), JFloat (Fin True 75 2)])"
    by (rule T [THEN conjunct2, THEN conjunct2, THEN conjunct2, THEN conjunct2,
          THEN conjunct2, THEN conjunct1, THEN mp, OF p])
  have 2: "ParseNum example_env (runes_of_literal '' 25'') 0 = Inr (JInt 25, 3)"
    by (simp add: parse_eval example_env_def)
  have s: "SkipSpace (runes_of_literal '' 25'') 0 = 1"
    by (simp add: SkipSpace.simps runes_of_literal_def)
  have "ParseAny example_env (runes_of_literal '' 25'') 0
      = ParseNum example_env (runes_of_literal '' 25'') (SkipSpace (runes_of_literal '' 25'') 0)"
    by (rule T [THEN conjunct2, THEN conjunct1, THEN mp])
       (simp add: s, simp add: runes_of_literal_def IsDigit_def)
  also have "\<dots> = Inr (JInt 25, 3)"
    unfolding s by (simp add: parse_eval example_env_def)
  finally have 3: "ParseAny example_env (runes_of_literal '' 25'') 0 = Inr (JInt 25, 3)" .
  have 4: "\<exists>i. JInt 25 = JInt i"
    using T [THEN conjunct1, THEN mp, OF 2, THEN conjunct2, THEN conjunct1]
  proof (rule iffD2)
    show "\<forall>j. SkipSpace (runes_of_literal '' 25'') 0 \<le> j \<and> j < 3 \<longrightarrow>
        runes_of_literal '' 25'' ! j \<noteq> 0x2E \<and> runes_of_literal '' 25'' ! j \<noteq> 0x65 \<and>
        runes_of_literal '' 25'' ! j \<noteq> 0x45"
    proof (intro allI impI)
      fix j :: nat
      assume "SkipSpace (runes_of_literal '' 25'') 0 \<le> j \<and> j < 3"
      then have "j = 1 \<or> j = 2" unfolding s by auto
      then show "runes_of_literal '' 25'' ! j \<noteq> 0x2E \<and> runes_of_literal '' 25'' ! j \<noteq> 0x65 \<and>
        runes_of_literal '' 25'' ! j \<noteq> 0x45"
        by (auto simp: runes_of_literal_def)
    qed
  qed
  show ?thesis by (intro conjI p 1 2 3 4)
qed

end
